theory Spec2Isabelle
  imports Complex_Main "HOL-Library.AList" "HOL-Library.Log_Nat"
begin

section \<open>Data model\<close>

text \<open>
  The cache file holds one activity record and one token record per calendar day. The
  date field is a \<^verbatim>\<open>YYYY-MM-DD\<close> string in the source; here it is the number of
  that calendar day (days since 1970-01-01), so that equal strings are equal numbers,
  the string order is the order of the numbers, and \<^verbatim>\<open>new Date(d.date)\<close>, which
  reads such a string as midnight UTC, is a multiplication. The numeric fields come
  from parsed JSON and may be missing (\<^verbatim>\<open>undefined\<close>): they are optional. Counts
  are integers.
\<close>

record dated =
  date :: int

record daily_activity = dated +
  messageCount :: "int option"
  sessionCount :: "int option"
  toolCallCount :: "int option"


record aggregated_stats =
  messages :: rat
  sessions :: rat
  toolCalls :: rat
  activeDays :: nat


record goals_config =
  daily :: int
  weekly :: int

section \<open>JavaScript numbers\<close>

text \<open>\<^verbatim>\<open>x || 0\<close> on a number that may be missing: \<^verbatim>\<open>undefined\<close> and \<open>0\<close> are falsy.\<close>

definition or0 :: "int option \<Rightarrow> int" where
  "or0 v = (case v of None \<Rightarrow> 0 | Some n \<Rightarrow> if n = 0 then 0 else n)"

text \<open>\<^verbatim>\<open>x > 0\<close> on a number that may be missing: \<^verbatim>\<open>undefined > 0\<close> is false.\<close>

definition gt0 :: "int option \<Rightarrow> bool" where
  "gt0 v = (case v of None \<Rightarrow> False | Some n \<Rightarrow> 0 < n)"

text \<open>
  Division and multiplication of JavaScript numbers are IEEE 754 double precision
  operations: the exact result, rounded to the nearest number with a 53-bit
  significand, ties to the even significand. Numbers are rationals here, and \<open>fl\<close>
  is that rounding: \<open>expo x\<close> is the binary exponent of \<open>x\<close> (the \<open>k\<close> with
  \<open>2 ^ k \<le> \<bar>x\<bar> < 2 ^ (k + 1)\<close>), and the significand is rounded by \<open>rne\<close>
  in units of \<open>2 ^ (k - 52)\<close>; \<open>bitlen n\<close> is the number of binary digits of
  \<open>n\<close>. Overflow to infinity and gradual underflow are left out: every value below
  is a quotient or a product of counts, far inside the normal range. Neither is a
  division by zero modelled (\<^verbatim>\<open>Infinity\<close>, \<^verbatim>\<open>NaN\<close>): \<^verbatim>\<open>getTrend\<close> tests for
  it first, and the goals are positive.
\<close>

definition rne :: "rat \<Rightarrow> int" where
  "rne y =
     (let f = \<lfloor>y\<rfloor>; r = y - of_int f
      in if r < 1 / 2 then f else if 1 / 2 < r then f + 1 else if even f then f else f + 1)"

definition expo :: "rat \<Rightarrow> int" where
  "expo x =
     (let a = \<bar>x\<bar>
      in if 1 \<le> a then bitlen \<lfloor>a\<rfloor> - 1 else - bitlen (\<lceil>1 / a\<rceil> - 1))"

definition fl :: "rat \<Rightarrow> rat" where
  "fl x =
     (if x = 0 then 0
      else let e = expo x - 52 in of_int (rne (x / 2 powi e)) * 2 powi e)"

definition fsub :: "rat \<Rightarrow> rat \<Rightarrow> rat" where
  "fsub a b = fl (a - b)"

definition fmul :: "rat \<Rightarrow> rat \<Rightarrow> rat" where
  "fmul a b = fl (a * b)"

definition fdiv :: "rat \<Rightarrow> rat \<Rightarrow> rat" where
  "fdiv a b = fl (a / b)"

definition fadd :: "rat \<Rightarrow> rat \<Rightarrow> rat" where
  "fadd a b = fl (a + b)"

section \<open>Exceptions\<close>

text \<open>
  A computation that may throw has a sum type, \<open>Inl\<close> the thrown value, and
  \<open>bindE\<close> runs the rest of a computation unless the first part threw. Reading a
  property of \<^verbatim>\<open>null\<close> or \<^verbatim>\<open>undefined\<close> throws a TypeError, and so does
  calling a method a value does not have. \<^verbatim>\<open>reduce\<close> with an initial value and
  \<^verbatim>\<open>filter\<close> run their callback on the elements in order and stop at the first
  one that throws.
\<close>

datatype exn = TypeError | ENOENT | SyntaxError | NetworkError | OtherError

definition bindE :: "exn + 'a \<Rightarrow> ('a \<Rightarrow> exn + 'b) \<Rightarrow> exn + 'b" where
  "bindE m f = (case m of Inl e \<Rightarrow> Inl e | Inr x \<Rightarrow> f x)"

definition getProp :: "('r \<Rightarrow> 'v) \<Rightarrow> 'r option \<Rightarrow> exn + 'v" where
  "getProp field obj = (case obj of None \<Rightarrow> Inl TypeError | Some r \<Rightarrow> Inr (field r))"

fun reduce :: "('b \<Rightarrow> 'a \<Rightarrow> exn + 'b) \<Rightarrow> 'b \<Rightarrow> 'a list \<Rightarrow> exn + 'b" where
  "reduce f acc [] = Inr acc"
| "reduce f acc (x # xs) = bindE (f acc x) (\<lambda>acc'. reduce f acc' xs)"

fun filterE :: "('a \<Rightarrow> exn + bool) \<Rightarrow> 'a list \<Rightarrow> exn + 'a list" where
  "filterE pred [] = Inr []"
| "filterE pred (x # xs) =
     bindE (pred x) (\<lambda>keep. bindE (filterE pred xs) (\<lambda>ys. Inr (if keep then x # ys else ys)))"

section \<open>Dates and time windows\<close>

text \<open>
  An instant is its number of milliseconds since the epoch; \<open>now\<close> is the value of
  \<^verbatim>\<open>new Date()\<close>, the same at every read within one call.
  \<^verbatim>\<open>
  function formatDate(date) {
    return date.toISOString().split('T')[0];
  }
  \<close>
  is the UTC calendar day of an instant, and \<^verbatim>\<open>new Date(d.date)\<close> is midnight UTC
  of a calendar day.

  \<^verbatim>\<open>x.setDate(x.getDate() - n)\<close> works on local time. The local time zone is a
  parameter, the function \<^verbatim>\<open>LocalTZA(t, isUTC)\<close> of the language standard: the
  offset of local time from UTC, in milliseconds, at the UTC instant \<open>t\<close> (\<open>isUTC\<close>
  true) or at the local time \<open>t\<close> (\<open>isUTC\<close> false). \<^verbatim>\<open>setDate\<close> takes the
  instant to local time, steps \<open>n\<close> calendar days back at the same wall-clock time,
  and takes the result back to UTC: \<open>n\<close> times 24 hours when the offset is the same
  at both ends, an hour less or more across a change to or from daylight saving time.
\<close>

type_synonym zone = "int \<Rightarrow> bool \<Rightarrow> int"

definition msPerDay :: int where
  "msPerDay = 86400000"

definition formatDate :: "int \<Rightarrow> int" where
  "formatDate t = t div msPerDay"

definition parseDate :: "int \<Rightarrow> int" where
  "parseDate d = d * msPerDay"

definition LocalTime :: "zone \<Rightarrow> int \<Rightarrow> int" where
  "LocalTime tza t = t + tza t True"

definition toUTC :: "zone \<Rightarrow> int \<Rightarrow> int" where
  "toUTC tza t = t - tza t False"

definition minusDays :: "zone \<Rightarrow> int \<Rightarrow> int \<Rightarrow> int" where
  "minusDays tza t n = toUTC tza (LocalTime tza t - n * msPerDay)"

text \<open>
  Two zones: UTC, and America/New_York around 10 March 2024, when its clocks went
  from 02:00 (UTC-5) to 03:00 (UTC-4) at 07:00 UTC; a local time in the skipped hour
  is read with the offset before the change.
\<close>

definition utc :: zone where
  "utc t isUTC = 0"

definition new_york_2024 :: zone where
  "new_york_2024 t isUTC =
     (if isUTC then (if t < 1710054000000 then - 18000000 else - 14400000)
      else (if t < 1710039600000 then - 18000000 else - 14400000))"

text \<open>
  The today filter of \<^verbatim>\<open>printJSON\<close>:
  \<^verbatim>\<open>
  const todayStr = formatDate(now);
  filtered = activity.filter(d => d.date === todayStr);
  \<close>
\<close>

definition filterToday :: "int \<Rightarrow> daily_activity list \<Rightarrow> daily_activity list" where
  "filterToday now activity =
     (let todayStr = formatDate now
      in filter (\<lambda>d. date d = todayStr) activity)"

text \<open>
  \<^verbatim>\<open>
  function getLast7Days(activity) {
    const cutoff = new Date();
    cutoff.setDate(cutoff.getDate() - 7);
    return activity.filter(d => new Date(d.date) >= cutoff);
  }
  \<close>
\<close>

definition getLast7Days :: "zone \<Rightarrow> int \<Rightarrow> daily_activity list \<Rightarrow> daily_activity list" where
  "getLast7Days tza now activity =
     (let cutoff = minusDays tza now 7
      in filter (\<lambda>d. cutoff \<le> parseDate (date d)) activity)"

text \<open>
  \<^verbatim>\<open>
  function getPrev7Days(activity) {
    const start = new Date();
    start.setDate(start.getDate() - 14);
    const end = new Date();
    end.setDate(end.getDate() - 7);
    return activity.filter(d => {
      const date = new Date(d.date);
      return date >= start && date < end;
    });
  }
  \<close>
\<close>

definition getPrev7Days :: "zone \<Rightarrow> int \<Rightarrow> daily_activity list \<Rightarrow> daily_activity list" where
  "getPrev7Days tza now activity =
     (let start = minusDays tza now 14;
          end = minusDays tza now 7
      in filter (\<lambda>d. start \<le> parseDate (date d) \<and> parseDate (date d) < end) activity)"

text \<open>
  The window as the specification words it, for comparison: the records whose date is
  at or after the calendar day \<open>n\<close> days before the calendar day of \<open>now\<close>.
\<close>

definition filterLastNDays_spec :: "int \<Rightarrow> int \<Rightarrow> daily_activity list \<Rightarrow> daily_activity list" where
  "filterLastNDays_spec now n history =
     filter (\<lambda>d. formatDate now - n \<le> date d) history"

section \<open>Aggregation\<close>

text \<open>
  \<^verbatim>\<open>
  function aggregateStats(data) {
    return {
      messages: data.reduce((sum, d) => sum + (d.messageCount || 0), 0),
      sessions: data.reduce((sum, d) => sum + (d.sessionCount || 0), 0),
      toolCalls: data.reduce((sum, d) => sum + (d.toolCallCount || 0), 0),
      activeDays: data.filter(d => d.messageCount > 0).length,
    };
  }
  \<close>
  The argument is any value the callers pass on from the parsed cache file: not an
  array at all, or an array whose elements are records or \<^verbatim>\<open>null\<close>. (An element
  that is a number or a string reads like a record without fields. A field that
  holds something other than a number is left out: it makes nothing throw, but the
  sum is then no number.) The sums are sums of JavaScript numbers, each addition
  rounded to a double.
\<close>

datatype activity_data = NotAnArray | Array "daily_activity option list"

definition aggregateStats :: "activity_data \<Rightarrow> exn + aggregated_stats" where
  "aggregateStats data =
     (case data of
        NotAnArray \<Rightarrow> Inl TypeError
      | Array xs \<Rightarrow>
          bindE (reduce (\<lambda>sum d. bindE (getProp messageCount d)
                   (\<lambda>v. Inr (fadd sum (of_int (or0 v))))) 0 xs) (\<lambda>m.
          bindE (reduce (\<lambda>sum d. bindE (getProp sessionCount d)
                   (\<lambda>v. Inr (fadd sum (of_int (or0 v))))) 0 xs) (\<lambda>s.
          bindE (reduce (\<lambda>sum d. bindE (getProp toolCallCount d)
                   (\<lambda>v. Inr (fadd sum (of_int (or0 v))))) 0 xs) (\<lambda>t.
          bindE (filterE (\<lambda>d. bindE (getProp messageCount d) (\<lambda>v. Inr (gt0 v))) xs) (\<lambda>a.
          Inr \<lparr> messages = m, sessions = s, toolCalls = t, activeDays = length a \<rparr>)))))"




section \<open>Trend, streak and goals\<close>

text \<open>
  \<^verbatim>\<open>
  function getTrend(current, previous) {
    if (previous === 0) return ' ';
    const diff = ((current - previous) / previous) * 100;
    if (diff > 10) return `${c.green}[up arrow]${c.reset}`;
    if (diff < -10) return `${c.red}[down arrow]${c.reset}`;
    return `${c.dim}[right arrow]${c.reset}`;
  }
  \<close>
  The four strings it can return are the four markers.
\<close>

datatype marker = Blank | UpArrow | DownArrow | RightArrow

definition getTrend :: "rat \<Rightarrow> rat \<Rightarrow> marker" where
  "getTrend current previous =
     (if previous = 0 then Blank
      else let diff = fmul (fdiv (fsub current previous) previous) 100
           in if 10 < diff then UpArrow
              else if diff < - 10 then DownArrow
              else RightArrow)"

text \<open>
  \<^verbatim>\<open>
  function calculateStreak(activity) {
    const sorted = [...activity].sort((a, b) => b.date.localeCompare(a.date));
    let streak = 0;
    const today = formatDate(new Date());

    for (let i = 0; i < sorted.length; i++) {
      const expected = new Date();
      expected.setDate(expected.getDate() - i);
      const expectedStr = formatDate(expected);

      const day = sorted.find(d => d.date === expectedStr);
      if (day && day.messageCount > 0) {
        streak++;
      } else if (i === 0 && expectedStr === today) {
        // Today might not have activity yet, check yesterday
        continue;
      } else {
        break;
      }
    }

    return streak;
  }
  \<close>
  The loop is \<open>streak_loop\<close>, on the loop variables \<open>i\<close> and \<open>streak\<close>. The sort is
  stable and descending by date.
\<close>

function streak_loop :: "zone \<Rightarrow> int \<Rightarrow> daily_activity list \<Rightarrow> nat \<Rightarrow> nat \<Rightarrow> nat" where
  "streak_loop tza now sortedA i streak =
     (if i < length sortedA then
        (let today = formatDate now;
             expectedStr = formatDate (minusDays tza now (int i));
             day = find (\<lambda>d. date d = expectedStr) sortedA
         in if (case day of None \<Rightarrow> False | Some d \<Rightarrow> gt0 (messageCount d))
            then streak_loop tza now sortedA (i + 1) (streak + 1)
            else if i = 0 \<and> expectedStr = today
            then streak_loop tza now sortedA (i + 1) streak
            else streak)
      else streak)"
  by pat_completeness auto
termination
  by (relation "measure (\<lambda>(tza, now, sortedA, i, streak). length sortedA - i)") auto

declare streak_loop.simps [simp del]

definition calculateStreak :: "zone \<Rightarrow> int \<Rightarrow> daily_activity list \<Rightarrow> nat" where
  "calculateStreak tza now activity =
     (let sortedA = sort_key (\<lambda>d. - date d) activity
      in streak_loop tza now sortedA 0 0)"

text \<open>
  \<^verbatim>\<open>
  function printGoalsProgress(todayMsgs, weekMsgs, goals) {
    // Daily progress
    const dailyPct = Math.min((todayMsgs / goals.daily) * 100, 100);
    const dailyBar = makeProgressBar(dailyPct, 20);
    const dailyStatus = todayMsgs >= goals.daily ? [check mark] : `${Math.round(dailyPct)}%`;
    // Weekly progress
    const weeklyPct = Math.min((weekMsgs / goals.weekly) * 100, 100);
    const weeklyBar = makeProgressBar(weeklyPct, 20);
    const weeklyStatus = weekMsgs >= goals.weekly ? [check mark] : `${Math.round(weeklyPct)}%`;
  }
  \<close>
  The model returns what the function computes and prints: the two percentages
  and the two status texts, a check mark or a rounded percentage.
  \<^verbatim>\<open>Math.round\<close> rounds to the nearest integer, a half upwards: \<open>round\<close>.
\<close>

datatype status = Check | Percent int

record goals_progress =
  dailyPct :: rat
  dailyStatus :: status
  weeklyPct :: rat
  weeklyStatus :: status

definition printGoalsProgress :: "int \<Rightarrow> int \<Rightarrow> goals_config \<Rightarrow> goals_progress" where
  "printGoalsProgress todayMsgs weekMsgs goals =
     (let dailyPct = min (fmul (fdiv (of_int todayMsgs) (of_int (daily goals))) 100) 100;
          dailyStatus = (if daily goals \<le> todayMsgs then Check else Percent (round dailyPct));
          weeklyPct = min (fmul (fdiv (of_int weekMsgs) (of_int (weekly goals))) 100) 100;
          weeklyStatus = (if weekly goals \<le> weekMsgs then Check else Percent (round weeklyPct))
      in \<lparr> dailyPct = dailyPct, dailyStatus = dailyStatus,
           weeklyPct = weeklyPct, weeklyStatus = weeklyStatus \<rparr>)"

text \<open>
  The percentage expression \<^verbatim>\<open>Math.min((msgs / goal) * 100, 100)\<close>, which
  \<^verbatim>\<open>printGoalsProgress\<close> evaluates once for the daily and once for the weekly pair.
\<close>

definition pct :: "int \<Rightarrow> int \<Rightarrow> rat" where
  "pct msgs goal = min (fmul (fdiv (of_int msgs) (of_int goal)) 100) 100"


section \<open>Quota fetch\<close>

text \<open>
  \<^verbatim>\<open>
  async function fetchQuota(auth) {
    if (!auth || auth.type !== 'oauth') return null;

    try {
      const response = await fetch(USAGE_API, {
        headers: {
          'Authorization': `Bearer ${auth.accessToken}`,
          'anthropic-beta': ANTHROPIC_BETA,
          'Accept': 'application/json'
        }
      });

      if (response.ok) {
        return await response.json();
      }
    } catch {}

    return null;
  }
  \<close>
  The network is a parameter: \<open>fetch\<close> maps the request (its Authorization header; the URL and the
  other headers are constants) to a thrown error or a response, and reading a
  response's body as JSON may throw as well. \<open>fetchQuota_try\<close> is the body of the
  \<^verbatim>\<open>try\<close> block: \<open>Inr (Some q)\<close> when it returns \<open>q\<close>, \<open>Inr None\<close> when it runs to
  its end.
\<close>

record auth =
  auth_type :: string
  accessToken :: "string option"

record 'q response =
  ok :: bool
  json :: "exn + 'q"

definition bearer :: "auth \<Rightarrow> string" where
  "bearer a = ''Bearer '' @ (case accessToken a of None \<Rightarrow> ''undefined'' | Some t \<Rightarrow> t)"

definition fetchQuota_try :: "(string \<Rightarrow> exn + 'q response) \<Rightarrow> auth \<Rightarrow> exn + 'q option" where
  "fetchQuota_try fetch a =
     (case fetch (bearer a) of
        Inl e \<Rightarrow> Inl e
      | Inr response \<Rightarrow>
          if ok response
          then (case json response of Inl e \<Rightarrow> Inl e | Inr q \<Rightarrow> Inr (Some q))
          else Inr None)"

definition fetchQuota :: "(string \<Rightarrow> exn + 'q response) \<Rightarrow> auth option \<Rightarrow> exn + 'q option" where
  "fetchQuota fetch auth =
     (case auth of
        None \<Rightarrow> Inr None
      | Some a \<Rightarrow>
          if auth_type a \<noteq> ''oauth'' then Inr None
          else (case fetchQuota_try fetch a of
                  Inl e \<Rightarrow> Inr None
                | Inr (Some q) \<Rightarrow> Inr (Some q)
                | Inr None \<Rightarrow> Inr None))"

section \<open>Start-up, render and the watch loop\<close>

text \<open>
  The process is what it has printed so far, its exit status once \<^verbatim>\<open>process.exit\<close>
  has run, the number of callbacks it has registered (\<^verbatim>\<open>setInterval\<close>,
  \<^verbatim>\<open>watchFile\<close>), and the renders that wait for their quota fetch. (The sequences
  that clear the screen are not recorded.)

  The environment, at each moment the program looks at it, is the stats file and
  the stored credential. The file is absent, present but not JSON, or present and
  parsed; in the last case printing its data in the selected mode (or writing the
  export) goes through or throws. The credential is an OAuth one or not.
  \<^verbatim>\<open>
  async function render() {
    try {
      const data = JSON.parse(readFileSync(STATS_FILE, 'utf8'));
      const auth = loadAuth();
      const quota = auth?.type === 'oauth' ? await fetchQuota(auth) : null;
      ... print in the selected mode ...
    } catch (err) {
      console.error(`${c.red}Error: ${err.message}${c.reset}`);
      if (!watchMode) process.exit(1);
    }
  }
  \<close>
  \<^verbatim>\<open>render\<close> is asynchronous and its callers do not wait for it. What a call does
  before it returns to its caller is \<open>render\<close>: it reads and parses the file, and a
  failure there is caught at once; with an OAuth credential it then stops at the
  \<^verbatim>\<open>await\<close>, and the rest of the \<^verbatim>\<open>try\<close> block, \<open>render_print\<close>, runs later, when
  the fetch has settled (\<open>settle\<close>; the fetch itself never throws); without one it
  prints right away. \<open>render_catch\<close> is the \<^verbatim>\<open>catch\<close> block.
\<close>

datatype file_state = Absent | Malformed | Valid "exn option"

record env =
  stats_file :: file_state
  oauth :: bool

datatype out =
  Stats | Error exn | NotFound | Guidance | HideCursor | ShowCursor | Goodbye | NoGoals
  | Progress

record process =
  printed :: "out list"
  exit_code :: "int option"
  timers :: nat
  pending :: "exn option list"

definition render_catch :: "bool \<Rightarrow> exn \<Rightarrow> process \<Rightarrow> process" where
  "render_catch watchMode err p =
     (let p' = p\<lparr>printed := printed p @ [Error err]\<rparr>
      in if \<not> watchMode then p'\<lparr>exit_code := Some 1\<rparr> else p')"

definition render_print :: "bool \<Rightarrow> exn option \<Rightarrow> process \<Rightarrow> process" where
  "render_print watchMode printing p =
     (case printing of
        None \<Rightarrow> p\<lparr>printed := printed p @ [Stats]\<rparr>
      | Some err \<Rightarrow> render_catch watchMode err p)"

definition render :: "bool \<Rightarrow> env \<Rightarrow> process \<Rightarrow> process" where
  "render watchMode e p =
     (case stats_file e of
        Absent \<Rightarrow> render_catch watchMode ENOENT p
      | Malformed \<Rightarrow> render_catch watchMode SyntaxError p
      | Valid printing \<Rightarrow>
          if oauth e then p\<lparr>pending := pending p @ [printing]\<rparr>
          else render_print watchMode printing p)"

definition settle :: "bool \<Rightarrow> process \<Rightarrow> process" where
  "settle watchMode p =
     (case pending p of
        [] \<Rightarrow> p
      | printing # rest \<Rightarrow> render_print watchMode printing (p\<lparr>pending := rest\<rparr>))"

text \<open>
  The end of \<^verbatim>\<open>main\<close>, after the commands that return early:
  \<^verbatim>\<open>
  // Check stats file exists
  if (!existsSync(STATS_FILE)) {
    console.error(`${c.red}Error: Stats file not found.${c.reset}`);
    console.error(`Make sure Claude Code CLI is installed and has been used.`);
    process.exit(1);
  }

  if (watchMode) {
    process.stdout.write(c.hideCursor);
    ... signal and key handlers ...
    render();
    setInterval(() => { render(); ... }, refreshInterval);
    watchFile(STATS_FILE, { interval: 5000 }, () => { render(); ... });
    setInterval(() => { ... updateProgressBar(); }, 100);
  } else {
    render();
  }
  \<close>
  The file is looked at twice, by \<^verbatim>\<open>existsSync\<close> and by the first render.
\<close>

definition main :: "bool \<Rightarrow> file_state \<Rightarrow> env \<Rightarrow> process \<Rightarrow> process" where
  "main watchMode at_check e p =
     (if at_check = Absent
      then p\<lparr>printed := printed p @ [NotFound, Guidance], exit_code := Some 1\<rparr>
      else if watchMode
      then (let p1 = render True e (p\<lparr>printed := printed p @ [HideCursor]\<rparr>)
            in p1\<lparr>timers := timers p1 + 3\<rparr>)
      else render False e p)"

text \<open>
  The process starts with nothing printed and nothing registered. Without watch
  mode the program is \<^verbatim>\<open>main\<close> and then, if the process has not exited and a
  render waits for its quota fetch, the rest of that render.
\<close>

definition start :: process where
  "start = \<lparr> printed = [], exit_code = None, timers = 0, pending = [] \<rparr>"

definition run_once :: "file_state \<Rightarrow> env \<Rightarrow> process" where
  "run_once at_check e =
     (let p = main False at_check e start
      in if exit_code p \<noteq> None then p else settle False p)"

text \<open>
  In watch mode the registered callbacks run one at a time, each to its end: the
  refresh timer, the file watcher, the progress timer, the settling of a quota
  fetch, a key (\<^verbatim>\<open>q\<close>, \<^verbatim>\<open>r\<close>, \<^verbatim>\<open>g\<close> with or without stored goals, any other) or
  a termination signal.
  \<^verbatim>\<open>
  function handleKeypress(key) {
    const char = key.toString();
    if (char === 'q' || char === '\u0003') { cleanup(); }
    if (char === 'r') { render(); }
    if (char === 'g') {
      const goals = loadGoals();
      if (!goals) { process.stdout.write(c.clear); render(); console.log(... No goals set ...); }
      else { showGoals = !showGoals; render(); }
    }
  }

  function cleanup() {
    process.stdout.write(c.showCursor);
    process.stdout.write('\n');
    console.log(`${c.dim}Goodbye!${c.reset}`);
    process.exit(0);
  }
  \<close>
\<close>

datatype event =
  RefreshTimer | FileChanged | ProgressTick | QuotaSettled
  | Key_q | Key_r | Key_g bool | Key_other | Signal

definition cleanup :: "process \<Rightarrow> process" where
  "cleanup p = p\<lparr>printed := printed p @ [ShowCursor, Goodbye], exit_code := Some 0\<rparr>"

definition handle :: "event \<Rightarrow> env \<Rightarrow> process \<Rightarrow> process" where
  "handle ev e p =
     (case ev of
        RefreshTimer \<Rightarrow> render True e p
      | FileChanged \<Rightarrow> render True e p
      | ProgressTick \<Rightarrow> p\<lparr>printed := printed p @ [Progress]\<rparr>
      | QuotaSettled \<Rightarrow> settle True p
      | Key_q \<Rightarrow> cleanup p
      | Key_r \<Rightarrow> render True e p
      | Key_g goals \<Rightarrow>
          (if \<not> goals
           then (let p1 = render True e p in p1\<lparr>printed := printed p1 @ [NoGoals]\<rparr>)
           else render True e p)
      | Key_other \<Rightarrow> p
      | Signal \<Rightarrow> cleanup p)"

text \<open>A process that has exited handles no further event.\<close>

fun run :: "(event \<times> env) list \<Rightarrow> process \<Rightarrow> process" where
  "run [] p = p"
| "run ((ev, e) # evs) p =
     (if exit_code p \<noteq> None then p else run evs (handle ev e p))"

section \<open>Folds and sums\<close>


section \<open>Properties of the token aggregation\<close>

lemma or0_id [simp]: "or0 (Some n) = n" "or0 None = 0"
  by (simp_all add: or0_def)








section \<open>Properties of the double rounding\<close>

lemma rne_close: "\<bar>of_int (rne y) - y\<bar> \<le> 1 / 2"
proof -
  have "of_int \<lfloor>y\<rfloor> \<le> y" "y < of_int \<lfloor>y\<rfloor> + 1" by linarith+
  then show ?thesis by (auto simp: rne_def Let_def)
qed

lemma rne_of_int [simp]: "rne (of_int n) = n"
  by (simp add: rne_def)

lemma rne_le_floor_plus: "rne y \<le> \<lfloor>y\<rfloor> + 1" and floor_le_rne: "\<lfloor>y\<rfloor> \<le> rne y"
  by (auto simp: rne_def Let_def)

lemma rne_mono: assumes "y \<le> z" shows "rne y \<le> rne z"
proof (cases "\<lfloor>y\<rfloor> = \<lfloor>z\<rfloor>")
  case True
  with assms show ?thesis by (auto simp: rne_def Let_def)
next
  case False
  with assms have "\<lfloor>y\<rfloor> + 1 \<le> \<lfloor>z\<rfloor>" using floor_mono [OF assms] by linarith
  with rne_le_floor_plus [of y] floor_le_rne [of z] show ?thesis by linarith
qed

lemma rne_unique:
  assumes "\<bar>of_int n - y\<bar> \<le> 1 / 2" and "\<bar>of_int n - y\<bar> = 1 / 2 \<Longrightarrow> even n"
  shows "rne y = n"
proof -
  have fl: "of_int \<lfloor>y\<rfloor> \<le> y" "y < of_int \<lfloor>y\<rfloor> + 1" by linarith+
  define f where "f = \<lfloor>y\<rfloor>"
  have nf: "n = f \<or> n = f + 1"
  proof -
    have "of_int n \<le> y + 1 / 2" "y - 1 / 2 \<le> of_int n" using assms(1) by linarith+
    then have "(of_int n :: rat) < of_int f + 2" "(of_int f :: rat) - 1 < of_int n"
      using fl unfolding f_def by linarith+
    then have "(of_int n :: rat) < of_int (f + 2)" "(of_int (f - 1) :: rat) < of_int n"
      by simp_all
    then have "n < f + 2" "f - 1 < n" by (simp_all only: of_int_less_iff)
    then show ?thesis by linarith
  qed
  show ?thesis
  proof (cases "y - of_int f < 1 / 2")
    case True
    then have r: "rne y = f" by (simp add: rne_def f_def)
    from True assms(1) nf have "n = f" by auto
    with r show ?thesis by simp
  next
    case False
    show ?thesis
    proof (cases "1 / 2 < y - of_int f")
      case True
      then have r: "rne y = f + 1" by (simp add: rne_def f_def)
      from True assms(1) nf have "n = f + 1" by auto
      with r show ?thesis by simp
    next
      case F2: False
      with False have h: "y - of_int f = 1 / 2" by linarith
      then have tie: "\<bar>of_int n - y\<bar> = 1 / 2" using nf by auto
      then have "even n" by (rule assms(2))
      with nf h show ?thesis by (auto simp: rne_def f_def)
    qed
  qed
qed

lemma rne_tie_even: "\<bar>of_int (rne y) - y\<bar> = 1 / 2 \<Longrightarrow> even (rne y)"
proof -
  assume a: "\<bar>of_int (rne y) - y\<bar> = 1 / 2"
  have fl: "of_int \<lfloor>y\<rfloor> \<le> y" "y < of_int \<lfloor>y\<rfloor> + 1" by linarith+
  show ?thesis
  proof (cases "y - of_int \<lfloor>y\<rfloor> = 1 / 2")
    case True
    have "rne y = (if even \<lfloor>y\<rfloor> then \<lfloor>y\<rfloor> else \<lfloor>y\<rfloor> + 1)"
      unfolding rne_def Let_def True by simp
    then show ?thesis by simp
  next
    case False
    with a fl show ?thesis by (auto simp: rne_def Let_def split: if_splits)
  qed
qed

lemma rne_minus: "rne (- y) = - rne y"
proof (rule rne_unique)
  show "\<bar>of_int (- rne y) - - y\<bar> \<le> 1 / 2" using rne_close [of y] by linarith
next
  assume "\<bar>of_int (- rne y) - - y\<bar> = 1 / 2"
  then have "\<bar>of_int (rne y) - y\<bar> = 1 / 2" by linarith
  then show "even (- rne y)" using rne_tie_even by simp
qed

lemma bitlen_pos: "0 < n \<Longrightarrow> 1 \<le> bitlen n"
  by (auto simp: bitlen_alt_def)

lemma expo_ge1:
  assumes "1 \<le> a"
  shows "2 powi (bitlen \<lfloor>a\<rfloor> - 1) \<le> (a::rat) \<and> a < 2 powi (bitlen \<lfloor>a\<rfloor> - 1 + 1)"
proof -
  define n where "n = \<lfloor>a\<rfloor>"
  define k where "k = bitlen n"
  have n: "1 \<le> n" using assms by (simp add: n_def)
  then have k: "1 \<le> k" unfolding k_def by (intro bitlen_pos) simp
  have b: "2 ^ nat (k - 1) \<le> n" "n < 2 ^ nat k"
    using bitlen_bounds [of n] n by (simp_all add: k_def)
  have "(of_int (2 ^ nat (k - 1)) :: rat) \<le> of_int n" using b(1) by (simp only: of_int_le_iff)
  then have "(2::rat) ^ nat (k - 1) \<le> of_int n" by (simp only: of_int_power of_int_numeral)
  moreover have "of_int n \<le> a" by (simp add: n_def)
  ultimately have lo: "(2::rat) ^ nat (k - 1) \<le> a" by linarith
  have "n + 1 \<le> 2 ^ nat k" using b(2) by simp
  then have "(of_int (n + 1) :: rat) \<le> of_int (2 ^ nat k)" by (simp only: of_int_le_iff)
  then have "(of_int (n + 1) :: rat) \<le> 2 ^ nat k" by (simp only: of_int_power of_int_numeral)
  moreover have "a < of_int (n + 1)" unfolding n_def by simp linarith
  ultimately have hi: "a < (2::rat) ^ nat k" by linarith
  from lo hi k show ?thesis
    by (simp add: power_int_nonneg_exp n_def [symmetric] k_def [symmetric])
qed

lemma expo_lt1:
  assumes "0 < a" "a < 1"
  shows "2 powi (- bitlen (\<lceil>1 / a\<rceil> - 1)) \<le> (a::rat)
       \<and> a < 2 powi (- bitlen (\<lceil>1 / a\<rceil> - 1) + 1)"
proof -
  define y where "y = 1 / a"
  define m where "m = \<lceil>y\<rceil> - 1"
  define k where "k = bitlen m"
  have y: "1 < y" using assms by (simp add: y_def)
  have a: "a = 1 / y" by (simp add: y_def)
  have m: "1 \<le> m" using y unfolding m_def by linarith
  then have k: "1 \<le> k" unfolding k_def by (intro bitlen_pos) simp
  have b: "2 ^ nat (k - 1) \<le> m" "m < 2 ^ nat k"
    using bitlen_bounds [of m] m by (simp_all add: k_def)
  have my: "of_int m < y" "y \<le> of_int (m + 1)" unfolding m_def by simp_all linarith+
  have "m + 1 \<le> 2 ^ nat k" using b(2) by simp
  then have "(of_int (m + 1) :: rat) \<le> of_int (2 ^ nat k)" by (simp only: of_int_le_iff)
  then have "(of_int (m + 1) :: rat) \<le> 2 ^ nat k" by (simp only: of_int_power of_int_numeral)
  with my(2) have yk: "y \<le> 2 ^ nat k" by linarith
  have "(of_int (2 ^ nat (k - 1)) :: rat) \<le> of_int m" using b(1) by (simp only: of_int_le_iff)
  then have "(2::rat) ^ nat (k - 1) \<le> of_int m" by (simp only: of_int_power of_int_numeral)
  with my(1) have yk1: "2 ^ nat (k - 1) < y" by linarith
  have p1: "(2::rat) powi (- k) = 1 / 2 ^ nat k"
    using k by (simp add: power_int_minus_divide power_int_nonneg_exp)
  have p2: "(2::rat) powi (- k + 1) = 1 / 2 ^ nat (k - 1)"
  proof -
    have "- k + 1 = - (k - 1)" by simp
    then show ?thesis using k
      by (simp only: power_int_minus_divide) (simp add: power_int_nonneg_exp)
  qed
  have lo: "1 / 2 ^ nat k \<le> a" unfolding a using yk y
    by (intro divide_left_mono) simp_all
  have "(0::rat) < 2 ^ nat (k - 1)" by simp
  with yk1 have "0 < y * 2 ^ nat (k - 1)" using y by simp
  then have hi: "a < 1 / 2 ^ nat (k - 1)" unfolding a using yk1
    by (intro divide_strict_left_mono) simp_all
  have p3: "(2::rat) powi (1 - k) = 1 / 2 ^ nat (k - 1)"
    using p2 by (simp add: add.commute)
  from lo hi show ?thesis
    by (simp add: p1 p3 y_def [symmetric] m_def [symmetric] k_def [symmetric])
qed

lemma expo_bounds:
  assumes "x \<noteq> 0"
  shows "2 powi expo x \<le> \<bar>x\<bar> \<and> \<bar>x\<bar> < 2 powi (expo x + 1)"
proof (cases "1 \<le> \<bar>x\<bar>")
  case True
  with expo_ge1 [OF True] show ?thesis by (simp add: expo_def)
next
  case False
  then have "0 < \<bar>x\<bar>" "\<bar>x\<bar> < 1" using assms by simp_all
  from expo_lt1 [OF this] False show ?thesis by (simp add: expo_def)
qed

lemma expo_minus [simp]: "expo (- x) = expo x"
  by (simp add: expo_def)

lemma two_powi_less_cancel: "(2::rat) powi a < 2 powi b \<Longrightarrow> a < b"
proof (rule ccontr)
  assume h: "(2::rat) powi a < 2 powi b" and "\<not> a < b"
  then have "b \<le> a" by simp
  then have "(2::rat) powi b \<le> 2 powi a" by (intro power_int_increasing) simp_all
  with h show False by simp
qed

lemma expo_unique:
  assumes "2 powi k \<le> \<bar>x\<bar>" "\<bar>x\<bar> < 2 powi (k + 1)"
  shows "expo x = k"
proof -
  have "(0::rat) < 2 powi k" by simp
  with assms(1) have "0 < \<bar>x\<bar>" by linarith
  then have x: "x \<noteq> 0" by simp
  note b = expo_bounds [OF x]
  have "(2::rat) powi expo x < 2 powi (k + 1)" using b assms by linarith
  then have 1: "expo x < k + 1" by (rule two_powi_less_cancel)
  have "(2::rat) powi k < 2 powi (expo x + 1)" using b assms by linarith
  then have 2: "k < expo x + 1" by (rule two_powi_less_cancel)
  from 1 2 show ?thesis by simp
qed

lemma fl_0 [simp]: "fl 0 = 0"
  by (simp add: fl_def)

lemma fl_minus: "fl (- x) = - fl x"
  by (simp add: fl_def Let_def rne_minus)

lemma fl_unfold: "x \<noteq> 0 \<Longrightarrow> fl x = of_int (rne (x / 2 powi (expo x - 52))) * 2 powi (expo x - 52)"
  by (simp add: fl_def Let_def)

lemma ulp_le:
  assumes "x \<noteq> 0"
  shows "2 powi (expo x - 52) * 2 ^ 52 \<le> \<bar>x\<bar>" "\<bar>x\<bar> < 2 powi (expo x - 52) * 2 ^ 53"
proof -
  have 1: "(2::rat) powi (expo x - 52) * 2 ^ 52 = 2 powi expo x"
    by (simp add: power_int_diff)
  have 2: "(2::rat) powi (expo x - 52) * 2 ^ 53 = 2 powi (expo x + 1)"
    by (simp add: power_int_diff power_int_add)
  show "2 powi (expo x - 52) * 2 ^ 52 \<le> \<bar>x\<bar>"
    unfolding 1 using expo_bounds [OF assms] by simp
  show "\<bar>x\<bar> < 2 powi (expo x - 52) * 2 ^ 53"
    unfolding 2 using expo_bounds [OF assms] by simp
qed

lemma fl_error: "\<bar>fl x - x\<bar> \<le> \<bar>x\<bar> / 2 ^ 53"
proof (cases "x = 0")
  case True
  then show ?thesis by simp
next
  case False
  define P :: rat where "P = 2 powi (expo x - 52)"
  have P: "0 < P" by (simp add: P_def)
  define y where "y = x / P"
  have x: "y * P = x" using P by (simp add: y_def)
  have f: "fl x = of_int (rne y) * P" using False by (simp add: fl_unfold P_def y_def)
  have "(of_int (rne y) - y) * P = of_int (rne y) * P - y * P" by (simp add: algebra_simps)
  then have "fl x - x = (of_int (rne y) - y) * P" by (simp only: f x)
  then have "\<bar>fl x - x\<bar> = \<bar>of_int (rne y) - y\<bar> * P" using P by (simp add: abs_mult)
  also have "\<dots> \<le> (1 / 2) * P" using rne_close [of y] P by (intro mult_right_mono) simp_all
  finally have a: "\<bar>fl x - x\<bar> \<le> P / 2" by simp
  have "P * 2 ^ 52 \<le> \<bar>x\<bar>" using ulp_le(1) [OF False] by (simp add: P_def)
  then have "P / 2 \<le> \<bar>x\<bar> / 2 ^ 53" by simp
  with a show ?thesis by linarith
qed

lemma fl_range:
  assumes "0 < x"
  shows "2 powi expo x \<le> fl x" "fl x \<le> 2 powi (expo x + 1)"
proof -
  have x0: "x \<noteq> 0" using assms by simp
  define P :: rat where "P = 2 powi (expo x - 52)"
  have P: "0 < P" by (simp add: P_def)
  define y where "y = x / P"
  have f: "fl x = of_int (rne y) * P" using x0 by (simp add: fl_unfold P_def y_def)
  have "P * 2 ^ 52 \<le> x" "x < P * 2 ^ 53" using ulp_le [OF x0] assms by (simp_all add: P_def)
  then have y: "2 ^ 52 \<le> y" "y \<le> 2 ^ 53" using P by (simp_all add: y_def field_simps)
  have "rne (of_int (2 ^ 52)) \<le> rne y" using y(1) by (intro rne_mono) simp
  then have lo: "2 ^ 52 \<le> rne y" by (simp only: rne_of_int)
  have "rne y \<le> rne (of_int (2 ^ 53))" using y(2) by (intro rne_mono) simp
  then have hi: "rne y \<le> 2 ^ 53" by (simp only: rne_of_int)
  have "(of_int (2 ^ 52) :: rat) \<le> of_int (rne y)" using lo by (simp only: of_int_le_iff)
  then have "2 ^ 52 * P \<le> of_int (rne y) * P" using P by (intro mult_right_mono) simp_all
  moreover have "2 ^ 52 * P = 2 powi expo x" by (simp add: P_def power_int_diff)
  ultimately show "2 powi expo x \<le> fl x" by (simp add: f)
  have "(of_int (rne y) :: rat) \<le> of_int (2 ^ 53)" using hi by (simp only: of_int_le_iff)
  then have "of_int (rne y) * P \<le> 2 ^ 53 * P" using P by (intro mult_right_mono) simp_all
  moreover have "2 ^ 53 * P = 2 powi (expo x + 1)" by (simp add: P_def power_int_diff power_int_add)
  ultimately show "fl x \<le> 2 powi (expo x + 1)" by (simp add: f)
qed

lemma fl_pos: "0 < x \<Longrightarrow> 0 < fl x"
  using fl_range(1) [of x] zero_less_power_int [of "2::rat" "expo x"] by linarith

lemma fl_nonneg: "0 \<le> x \<Longrightarrow> 0 \<le> fl x"
  using fl_pos [of x] by (cases "x = 0") simp_all

lemma fl_mono_pos:
  assumes "0 < x" "x \<le> y"
  shows "fl x \<le> fl y"
proof -
  have y0: "0 < y" using assms by simp
  have "(2::rat) powi expo x < 2 powi (expo y + 1)"
    using expo_bounds [of x] expo_bounds [of y] assms by simp
  then have le: "expo x \<le> expo y" using two_powi_less_cancel by fastforce
  show ?thesis
  proof (cases "expo x = expo y")
    case True
    define P :: rat where "P = 2 powi (expo y - 52)"
    have P: "0 < P" by (simp add: P_def)
    have "x / P \<le> y / P" using assms P by (simp add: divide_right_mono)
    then have "rne (x / P) \<le> rne (y / P)" by (rule rne_mono)
    then have "(of_int (rne (x / P)) :: rat) \<le> of_int (rne (y / P))" by (simp only: of_int_le_iff)
    then have "of_int (rne (x / P)) * P \<le> of_int (rne (y / P)) * P"
      using P by (intro mult_right_mono) simp_all
    then show ?thesis using assms y0 True by (simp add: fl_unfold P_def)
  next
    case False
    with le have "expo x + 1 \<le> expo y" by simp
    then have "(2::rat) powi (expo x + 1) \<le> 2 powi expo y"
      by (intro power_int_increasing) simp_all
    with fl_range(2) [OF assms(1)] fl_range(1) [OF y0] show ?thesis by linarith
  qed
qed

lemma fl_mono: assumes "x \<le> y" shows "fl x \<le> fl y"
proof -
  consider "0 < x" | "y < 0" | "x \<le> 0" "0 \<le> y" by linarith
  then show ?thesis
  proof cases
    case 1
    then show ?thesis using assms by (rule fl_mono_pos)
  next
    case 2
    then have "fl (- y) \<le> fl (- x)" using assms by (intro fl_mono_pos) simp_all
    then show ?thesis by (simp add: fl_minus)
  next
    case 3
    have "0 \<le> fl (- x)" using 3(1) by (intro fl_nonneg) simp
    then have "fl x \<le> 0" by (simp add: fl_minus)
    moreover have "0 \<le> fl y" using 3(2) by (rule fl_nonneg)
    ultimately show ?thesis by linarith
  qed
qed

lemma fl_of_int:
  assumes "\<bar>n\<bar> < 2 ^ 53"
  shows "fl (of_int n) = of_int n"
proof (cases "n = 0")
  case True
  then show ?thesis by simp
next
  case False
  define x :: rat where "x = of_int n"
  have x0: "x \<noteq> 0" using False by (simp add: x_def)
  have "(of_int \<bar>n\<bar> :: rat) < of_int (2 ^ 53)" using assms by (simp only: of_int_less_iff)
  then have ax: "\<bar>x\<bar> < 2 ^ 53" by (simp add: x_def)
  have "(2::rat) powi expo x < 2 powi 53" using expo_bounds [OF x0] ax by simp
  then have "expo x < 53" by (rule two_powi_less_cancel)
  define j where "j = nat (52 - expo x)"
  have e: "expo x - 52 = - int j" using \<open>expo x < 53\<close> by (simp add: j_def)
  have P: "(2::rat) powi (expo x - 52) = 1 / 2 ^ j"
    unfolding e by (simp add: power_int_minus_divide)
  have "x / (1 / 2 ^ j) = of_int (n * 2 ^ j)" by (simp add: x_def)
  then have "rne (x / (1 / 2 ^ j)) = n * 2 ^ j" by (simp only: rne_of_int)
  then have "fl x = of_int (n * 2 ^ j) * (1 / 2 ^ j)" using x0 by (simp add: fl_unfold P)
  then show ?thesis by (simp add: x_def)
qed

lemma fl_lower: assumes "0 \<le> x" shows "x * (1 - 1 / 2 ^ 53) \<le> fl x"
proof -
  have "\<bar>fl x - x\<bar> \<le> x / 2 ^ 53" using fl_error [of x] assms by simp
  then have "x - x / 2 ^ 53 \<le> fl x" by linarith
  moreover have "x * (1 - 1 / 2 ^ 53) = x - x / 2 ^ 53" by (simp add: algebra_simps)
  ultimately show ?thesis by (simp only:)
qed

lemma fl_upper: assumes "0 \<le> x" shows "fl x \<le> x * (1 + 1 / 2 ^ 53)"
proof -
  have "\<bar>fl x - x\<bar> \<le> x / 2 ^ 53" using fl_error [of x] assms by simp
  then have "fl x \<le> x + x / 2 ^ 53" by linarith
  moreover have "x * (1 + 1 / 2 ^ 53) = x + x / 2 ^ 53" by (simp add: algebra_simps)
  ultimately show ?thesis by (simp only:)
qed

lemma fl_tenth_times_100: "fl (fl (1 / 10) * 100) = 10"
  by code_simp

lemma pct_le_10:
  assumes "x \<le> 1 / 10"
  shows "fl (fl x * 100) \<le> 10"
proof -
  have "fl x \<le> fl (1 / 10)" using assms by (rule fl_mono)
  then have "fl x * 100 \<le> fl (1 / 10) * 100" by simp
  then have "fl (fl x * 100) \<le> fl (fl (1 / 10) * 100)" by (rule fl_mono)
  then show ?thesis by (simp only: fl_tenth_times_100)
qed

lemma pct_gt_10:
  assumes "1 / 10 + 1 / (10 * 2 ^ 51) \<le> x"
  shows "10 < fl (fl x * 100)"
proof -
  define u :: rat where "u = 1 - 1 / 2 ^ 53"
  have u: "0 < u" by (simp add: u_def)
  have x0: "0 \<le> x" using assms by simp
  have 1: "x * u \<le> fl x" using fl_lower [OF x0] by (simp add: u_def)
  have "0 \<le> fl x" using x0 by (rule fl_nonneg)
  then have 2: "fl x * 100 * u \<le> fl (fl x * 100)" using fl_lower [of "fl x * 100"] by (simp add: u_def)
  have "x * u * 100 * u \<le> fl x * 100 * u" using 1 u by simp
  with 2 have 3: "x * u * 100 * u \<le> fl (fl x * 100)" by linarith
  have "(1 / 10 + 1 / (10 * 2 ^ 51)) * (u * 100 * u) \<le> x * (u * 100 * u)"
    using assms u by (intro mult_right_mono) simp_all
  moreover have "10 < (1 / 10 + 1 / (10 * 2 ^ 51)) * (u * 100 * u)" by (simp add: u_def)
  ultimately have "10 < x * u * 100 * u" by (simp add: mult.assoc)
  with 3 show ?thesis by linarith
qed

lemma ratio_ge:
  assumes "0 < p" "p \<le> 2 ^ 51" "p + 1 \<le> 10 * d"
  shows "1 / 10 + 1 / (10 * 2 ^ 51) \<le> (of_int d :: rat) / of_int p"
proof -
  have p: "(0::rat) < of_int p" using assms(1) by simp
  have "(of_int p :: rat) \<le> of_int (2 ^ 51)" using assms(2) by (simp only: of_int_le_iff)
  then have 1: "(of_int p :: rat) / 2 ^ 51 \<le> 1" by simp
  have "(of_int (p + 1) :: rat) \<le> of_int (10 * d)" using assms(3) by (simp only: of_int_le_iff)
  then have 2: "(of_int p :: rat) + 1 \<le> 10 * of_int d" by simp
  have "(1 / 10 + 1 / (10 * 2 ^ 51)) * (of_int p :: rat) = (of_int p + of_int p / 2 ^ 51) / 10"
    by (simp add: algebra_simps)
  also have "\<dots> \<le> (of_int p + 1) / 10" using 1 by simp
  also have "\<dots> \<le> of_int d" using 2 by simp
  finally show ?thesis using p by (simp add: pos_le_divide_eq)
qed

lemma ratio_le:
  assumes "0 < p" "10 * d \<le> p"
  shows "(of_int d :: rat) / of_int p \<le> 1 / 10"
proof -
  have p: "(0::rat) < of_int p" using assms(1) by simp
  have "(of_int (10 * d) :: rat) \<le> of_int p" using assms(2) by (simp only: of_int_le_iff)
  then have "(of_int d :: rat) \<le> (1 / 10) * of_int p" by simp
  then show ?thesis using p by (simp only: pos_divide_le_eq)
qed

lemma getTrend_int:
  assumes "0 \<le> c" "c < 2 ^ 53" "0 \<le> p" "p \<le> 2 ^ 51"
  shows "getTrend (of_int c) (of_int p) =
           (if p = 0 then Blank
            else if 11 * p < 10 * c then UpArrow
            else if 10 * c < 9 * p then DownArrow
            else RightArrow)"
proof (cases "p = 0")
  case True
  then show ?thesis by (simp add: getTrend_def)
next
  case False
  then have p: "0 < p" using assms(3) by simp
  define d where "d = c - p"
  define x :: rat where "x = of_int d / of_int p"
  have "\<bar>d\<bar> < 2 ^ 53" using assms by (simp add: d_def)
  then have "fl (of_int d) = of_int d" by (rule fl_of_int)
  then have s: "fsub (of_int c) (of_int p) = of_int d" by (simp add: fsub_def d_def)
  have diff: "fmul (fdiv (fsub (of_int c) (of_int p)) (of_int p)) 100 = fl (fl x * 100)"
    by (simp add: s fmul_def fdiv_def x_def)
  have g: "getTrend (of_int c) (of_int p) =
             (if 10 < fl (fl x * 100) then UpArrow
              else if fl (fl x * 100) < - 10 then DownArrow else RightArrow)"
    using False by (simp add: getTrend_def diff Let_def)
  have mx: "fl (fl (- x) * 100) = - fl (fl x * 100)" by (simp add: fl_minus)
  have nx: "- x = of_int (- d) / of_int p" by (simp add: x_def)
  show ?thesis
  proof (cases "11 * p < 10 * c")
    case True
    then have "p + 1 \<le> 10 * d" by (simp add: d_def)
    from ratio_ge [OF p assms(4) this] have "10 < fl (fl x * 100)"
      unfolding x_def by (rule pct_gt_10)
    with True False g show ?thesis by simp
  next
    case up: False
    then have "10 * d \<le> p" by (simp add: d_def)
    from ratio_le [OF p this] have le: "fl (fl x * 100) \<le> 10"
      unfolding x_def by (rule pct_le_10)
    show ?thesis
    proof (cases "10 * c < 9 * p")
      case True
      then have "p + 1 \<le> 10 * (- d)" by (simp add: d_def)
      from ratio_ge [OF p assms(4) this] have "10 < fl (fl (- x) * 100)"
        unfolding nx by (rule pct_gt_10)
      then have "fl (fl x * 100) < - 10" unfolding mx by simp
      with True False up le g show ?thesis by simp
    next
      case dn: False
      then have "10 * (- d) \<le> p" by (simp add: d_def)
      from ratio_le [OF p this] have "fl (fl (- x) * 100) \<le> 10"
        unfolding nx by (rule pct_le_10)
      then have "- 10 \<le> fl (fl x * 100)" unfolding mx by simp
      with dn False up le g show ?thesis by simp
    qed
  qed
qed

lemma round_min: "round (min a b) = min (round a) (round (b::rat))"
proof (cases "a \<le> b")
  case True
  then have "round a \<le> round b" by (rule round_mono)
  with True show ?thesis by (simp add: min_def)
next
  case False
  then have "b \<le> a" by simp
  then have "round b \<le> round a" by (rule round_mono)
  with False show ?thesis by (simp add: min_def)
qed

lemma fl_1: "fl 1 = 1" and fl_100: "fl 100 = 100"
  by code_simp+

lemma pct_range: assumes "0 \<le> m" "0 < g" shows "0 \<le> pct m g" "pct m g \<le> 100"
proof -
  have "0 \<le> (of_int m :: rat) / of_int g" using assms by simp
  then have "0 \<le> fl (of_int m / of_int g)" by (rule fl_nonneg)
  then have "0 \<le> fl (of_int m / of_int g) * 100" by simp
  then have "0 \<le> fl (fl (of_int m / of_int g) * 100)" by (rule fl_nonneg)
  then show "0 \<le> pct m g" by (simp add: pct_def fmul_def fdiv_def)
  show "pct m g \<le> 100" by (simp add: pct_def)
qed

lemma pct_met: assumes "0 < g" "g \<le> m" shows "pct m g = 100"
proof -
  have "(of_int g :: rat) \<le> of_int m" using assms(2) by (simp only: of_int_le_iff)
  then have "1 \<le> (of_int m :: rat) / of_int g" using assms(1) by (simp add: pos_le_divide_eq)
  then have "fl 1 \<le> fl (of_int m / of_int g)" by (rule fl_mono)
  then have "100 \<le> fl (of_int m / of_int g) * 100" by (simp add: fl_1)
  then have "fl 100 \<le> fl (fl (of_int m / of_int g) * 100)" by (rule fl_mono)
  then show ?thesis by (simp add: pct_def fmul_def fdiv_def fl_100)
qed

lemma pct_error:
  assumes "0 \<le> m" "m < g"
  shows "\<bar>fl (fl (of_int m / of_int g) * 100) - 100 * of_int m / of_int g\<bar> < 1 / 2 ^ 44"
proof -
  define x :: rat where "x = of_int m / of_int g"
  define u :: rat where "u = 1 / 2 ^ 53"
  have x: "0 \<le> x" "x < 1" using assms by (simp_all add: x_def)
  have r: "\<bar>fl x - x\<bar> \<le> x * u" using fl_error [of x] x by (simp add: u_def)
  have r0: "0 \<le> fl x" using x(1) by (rule fl_nonneg)
  have q: "\<bar>fl (fl x * 100) - fl x * 100\<bar> \<le> fl x * 100 * u"
    using fl_error [of "fl x * 100"] r0 by (simp add: u_def)
  have "fl x \<le> x + x * u" using r by linarith
  then have "fl x * 100 * u \<le> (x + x * u) * 100 * u" by (simp add: u_def)
  with q have q2: "\<bar>fl (fl x * 100) - fl x * 100\<bar> \<le> (x + x * u) * 100 * u" by linarith
  have "\<bar>fl x * 100 - 100 * x\<bar> = \<bar>fl x - x\<bar> * 100" by (simp add: abs_if)
  with r have r2: "\<bar>fl x * 100 - 100 * x\<bar> \<le> x * u * 100" by simp
  have "\<bar>fl (fl x * 100) - 100 * x\<bar> \<le> (x + x * u) * 100 * u + x * u * 100"
    using q2 r2 by linarith
  also have "\<dots> = x * ((2 + u) * 100 * u)" by (simp add: algebra_simps)
  also have "\<dots> \<le> 1 * ((2 + u) * 100 * u)" using x by (intro mult_right_mono) (simp_all add: u_def)
  also have "\<dots> < 1 / 2 ^ 44" by (simp add: u_def)
  finally show ?thesis by (simp add: x_def)
qed

lemma round_near:
  fixes q x :: rat
  assumes D: "0 < D" and xD: "x * of_int D = of_int n" and nt: "frac x \<noteq> 1 / 2"
    and close: "\<bar>q - x\<bar> < 1 / of_int (2 * D)"
  shows "round q = round x"
proof -
  define z where "z = x + 1 / 2"
  define k where "k = \<lfloor>z\<rfloor>"
  have Dr: "(0::rat) < of_int D" using D by simp
  define s where "s = 2 * n + D - 2 * D * k"
  have zs: "(z - of_int k) * of_int (2 * D) = of_int s"
    using xD by (simp add: z_def s_def algebra_simps)
  have fz: "0 \<le> z - of_int k" "z - of_int k < 1" unfolding k_def by linarith+
  have "z - of_int k \<noteq> 0"
  proof
    assume "z - of_int k = 0"
    then have e: "x = of_int (k - 1) + 1 / 2" by (simp add: z_def)
    then have "of_int (k - 1) \<le> x" "x < of_int (k - 1) + 1" by simp_all
    then have "\<lfloor>x\<rfloor> = k - 1" by (rule floor_unique)
    then have "frac x = 1 / 2" using e by (simp add: frac_def)
    with nt show False by simp
  qed
  with fz have pos: "0 < z - of_int k" by simp
  have "0 < (z - of_int k) * of_int (2 * D)" using pos Dr by simp
  then have "(0::rat) < of_int s" by (simp only: zs)
  then have s1: "1 \<le> s" by simp
  have "(z - of_int k) * of_int (2 * D) < 1 * of_int (2 * D)"
    using fz(2) Dr by (intro mult_strict_right_mono) simp_all
  then have "(of_int s :: rat) < of_int (2 * D)" by (simp only: zs mult_1)
  then have "s < 2 * D" by (simp only: of_int_less_iff)
  then have s2: "s \<le> 2 * D - 1" by simp
  have "(of_int 1 :: rat) \<le> of_int s" using s1 by (simp only: of_int_le_iff)
  then have "1 \<le> (z - of_int k) * of_int (2 * D)" by (simp only: zs of_int_1)
  then have lo: "1 / of_int (2 * D) \<le> z - of_int k" using Dr by (simp add: pos_divide_le_eq)
  have "(of_int s :: rat) \<le> of_int (2 * D - 1)" using s2 by (simp only: of_int_le_iff)
  then have "(z - of_int k) * of_int (2 * D) \<le> of_int (2 * D) - 1"
    by (simp only: zs of_int_diff of_int_1)
  then have "z - of_int k \<le> (of_int (2 * D) - 1) / of_int (2 * D)"
    using Dr by (simp add: pos_le_divide_eq)
  also have "\<dots> = 1 - 1 / of_int (2 * D)" using Dr by (simp add: field_simps)
  finally have hi: "z - of_int k \<le> 1 - 1 / of_int (2 * D)" .
  have "of_int k < q + 1 / 2" "q + 1 / 2 < of_int k + 1"
    using lo hi close unfolding z_def by linarith+
  then have "\<lfloor>q + 1 / 2\<rfloor> = k" by (simp add: floor_unique)
  then show ?thesis by (simp add: round_def k_def z_def)
qed

lemma pct_exact:
  assumes "0 \<le> m" "0 < g" "g \<le> 2 ^ 43"
    and "frac (100 * of_int m / of_int g :: rat) \<noteq> 1 / 2"
  shows "round (pct m g) = min 100 (round (100 * of_int m / of_int g :: rat))"
proof (cases "g \<le> m")
  case True
  have "(of_int g :: rat) \<le> of_int m" using True by (simp only: of_int_le_iff)
  then have "(100::rat) \<le> 100 * of_int m / of_int g" using assms(2) by (simp add: pos_le_divide_eq)
  then have "round (100::rat) \<le> round (100 * of_int m / of_int g :: rat)" by (rule round_mono)
  then show ?thesis using pct_met [OF assms(2) True] by simp
next
  case False
  then have lt: "m < g" by simp
  define x :: rat where "x = 100 * of_int m / of_int g"
  define q where "q = fl (fl (of_int m / of_int g) * 100)"
  have "(of_int (2 * g) :: rat) \<le> of_int (2 ^ 44)" using assms(3) by (simp only: of_int_le_iff) simp
  then have "(1::rat) / 2 ^ 44 \<le> 1 / of_int (2 * g)"
    using assms(2) by (intro divide_left_mono) simp_all
  with pct_error [OF assms(1) lt] have close: "\<bar>q - x\<bar> < 1 / of_int (2 * g)"
    by (simp add: q_def x_def)
  have xg: "x * of_int g = of_int (100 * m)" using assms(2) by (simp add: x_def)
  have "round q = round x"
    using assms(2) xg assms(4) [folded x_def] close by (rule round_near)
  moreover have "pct m g = min q 100" by (simp add: pct_def q_def fmul_def fdiv_def)
  ultimately show ?thesis by (simp add: round_min x_def min.commute)
qed

lemma fl_fl: "fl (fl x) = fl x"
proof -
  have pos: "fl (fl x) = fl x" if x: "0 < x" for x
  proof -
    define P :: rat where "P = 2 powi (expo x - 52)"
    have P: "0 < P" by (simp add: P_def)
    define m where "m = rne (x / P)"
    have f: "fl x = of_int m * P" using x by (simp add: fl_unfold P_def m_def)
    have r: "2 powi expo x \<le> fl x" "fl x \<le> 2 powi (expo x + 1)" using fl_range [OF x] by simp_all
    have fp: "0 < fl x" using x by (rule fl_pos)
    have P52: "P * 2 ^ 52 = 2 powi expo x" by (simp add: P_def power_int_diff)
    have P53: "P * 2 ^ 53 = 2 powi (expo x + 1)" by (simp add: P_def power_int_diff power_int_add)
    show ?thesis
    proof (cases "fl x = 2 powi (expo x + 1)")
      case True
      have "2 powi (expo x + 1) \<le> \<bar>fl x\<bar>" "\<bar>fl x\<bar> < 2 powi (expo x + 1 + 1)"
        using True by (simp_all add: power_int_add)
      then have e: "expo (fl x) = expo x + 1" by (rule expo_unique)
      have "(2::rat) powi (expo x + 1 - (expo x + 1 - 52)) = 2 powi (expo x + 1) / 2 powi (expo x + 1 - 52)"
        by (rule power_int_diff) simp
      then have "fl x / 2 powi (expo x + 1 - 52) = 2 powi 52" using True by simp
      then have "fl x / 2 powi (expo x + 1 - 52) = of_int (2 ^ 52)" by simp
      then have "rne (fl x / 2 powi (expo x + 1 - 52)) = 2 ^ 52" by (simp only: rne_of_int)
      then have "fl (fl x) = 2 ^ 52 * 2 powi (expo x + 1 - 52)"
        using fp by (simp add: fl_unfold e)
      also have "\<dots> = 2 powi 52 * 2 powi (expo x + 1 - 52)" by simp
      also have "\<dots> = 2 powi (52 + (expo x + 1 - 52))"
        by (rule power_int_add [symmetric]) simp
      also have "\<dots> = 2 powi (expo x + 1)"
      proof -
        have "52 + (expo x + 1 - 52) = expo x + 1" by simp
        then show ?thesis by (simp only:)
      qed
      finally show ?thesis using True by simp
    next
      case False
      with r have "2 powi expo x \<le> \<bar>fl x\<bar>" "\<bar>fl x\<bar> < 2 powi (expo x + 1)" using fp by simp_all
      then have e: "expo (fl x) = expo x" by (rule expo_unique)
      have "fl x / P = of_int m" using P by (simp add: f)
      then have rm: "rne (fl x / P) = m" by (simp only: rne_of_int)
      have fx0: "fl x \<noteq> 0" using fp by simp
      have "fl (fl x) = of_int (rne (fl x / 2 powi (expo (fl x) - 52))) * 2 powi (expo (fl x) - 52)"
        using fx0 by (rule fl_unfold)
      also have "\<dots> = of_int (rne (fl x / P)) * P" by (simp only: e P_def)
      also have "\<dots> = of_int m * P" by (simp only: rm)
      finally show ?thesis by (simp only: f)
    qed
  qed
  consider "0 < x" | "x = 0" | "x < 0" by linarith
  then show ?thesis
  proof cases
    case 1 then show ?thesis by (rule pos)
  next
    case 2 then show ?thesis by simp
  next
    case 3
    then have "fl (fl (- x)) = fl (- x)" by (intro pos) simp
    then show ?thesis by (simp add: fl_minus)
  qed
qed

section \<open>Trend markers\<close>

text \<open>
  Claim C4. For window totals \<open>current\<close> and \<open>previous\<close> (non-negative integers in the
  range where doubles hold them exactly and the quotient keeps its precision),
  \<^verbatim>\<open>getTrend\<close> returns the blank marker when \<open>previous\<close> is zero; the up arrow when
  \<open>current\<close> exceeds \<open>previous\<close> by more than 10 percent (\<open>10 * current > 11 *
  previous\<close>); the down arrow when \<open>current\<close> is more than 10 percent below
  \<open>previous\<close> (\<open>10 * current < 9 * previous\<close>); and the right arrow otherwise. The
  blank and the right arrow are the two neutral markers. The double-precision
  evaluation of \<^verbatim>\<open>((current - previous) / previous) * 100\<close> decides exactly as
  the integer comparison does, the boundary cases of exactly 10 percent included.
  In particular \<open>getTrend 100 100\<close> and \<open>getTrend 95 100\<close> are neutral,
  \<open>getTrend 111 100\<close> is up and \<open>getTrend 89 100\<close> is down.
\<close>

theorem getTrend_bands:
  assumes "0 \<le> current" "current < 2 ^ 53" "0 \<le> previous" "previous \<le> 2 ^ 51"
  shows "getTrend (of_int current) (of_int previous) =
           (if previous = 0 then Blank
            else if 11 * previous < 10 * current then UpArrow
            else if 10 * current < 9 * previous then DownArrow
            else RightArrow)
         \<and> getTrend 100 100 = RightArrow \<and> getTrend 95 100 = RightArrow
         \<and> getTrend 111 100 = UpArrow \<and> getTrend 89 100 = DownArrow"
proof -
  have "getTrend 100 100 = RightArrow" "getTrend 95 100 = RightArrow"
       "getTrend 111 100 = UpArrow" "getTrend 89 100 = DownArrow"
    by code_simp+
  with getTrend_int [OF assms] show ?thesis by simp
qed

text \<open>
  The theorem at 110 against 100, exactly 10 percent up and still neutral, and at 5
  against no previous data.
\<close>

theorem getTrend_bands_witness:
  "(0::int) \<le> 110 \<and> (110::int) < 2 ^ 53 \<and> (0::int) \<le> 100 \<and> (100::int) \<le> 2 ^ 51
   \<and> getTrend (of_int 110) (of_int 100) = RightArrow
   \<and> getTrend (of_int 5) (of_int 0) = Blank"
  using getTrend_bands [of 110 100] getTrend_bands [of 5 0] by simp

section \<open>Goal progress\<close>

lemma dailyPct_eq: "dailyPct (printGoalsProgress t w g) = pct t (daily g)"
  and weeklyPct_eq: "weeklyPct (printGoalsProgress t w g) = pct w (weekly g)"
  and dailyStatus_eq: "dailyStatus (printGoalsProgress t w g) =
      (if daily g \<le> t then Check else Percent (round (pct t (daily g))))"
  and weeklyStatus_eq: "weeklyStatus (printGoalsProgress t w g) =
      (if weekly g \<le> w then Check else Percent (round (pct w (weekly g))))"
  by (simp_all add: printGoalsProgress_def pct_def Let_def)

lemma pct_round_range: assumes "0 \<le> m" "0 < g" shows "0 \<le> round (pct m g)" "round (pct m g) \<le> 100"
proof -
  have "round (0::rat) \<le> round (pct m g)" using pct_range(1) [OF assms] by (rule round_mono)
  then show "0 \<le> round (pct m g)" by simp
  have "round (pct m g) \<le> round (100::rat)" using pct_range(2) [OF assms] by (rule round_mono)
  then show "round (pct m g) \<le> 100" by simp
qed

text \<open>
  Claim C5, as stated, fails: with 23 messages against a goal of 40 the exact
  percentage is 57.5, which rounds to 58 under every rounding of a half, but the
  source computes \<^verbatim>\<open>(23 / 40) * 100\<close> in double precision, which is
  57.49999999999999, and prints 57.
\<close>

theorem printGoalsProgress_counterexample:
  "dailyStatus (printGoalsProgress 23 0 \<lparr> daily = 40, weekly = 100 \<rparr>) = Percent 57
   \<and> min 100 (round (100 * 23 / 40 :: rat)) = 58"
  by code_simp

text \<open>
  Claim C5, amended. For non-negative integers \<open>todayMsgs\<close>, \<open>weekMsgs\<close> and positive
  integer goals (up to \<open>2 ^ 43\<close>), \<^verbatim>\<open>printGoalsProgress\<close> treats the daily pair and
  the weekly pair alike and independently: the percentage is the double-precision
  value of \<^verbatim>\<open>(current / goal) * 100\<close> clamped to at most 100; the goal is shown as
  met (the check mark) exactly when \<open>current \<ge> goal\<close>, and then the percentage is
  100; otherwise the rounded percentage is printed; the rounded percentage lies
  between 0 and 100; and it equals \<open>min 100 (round (100 * current / goal))\<close> whenever
  \<open>100 * current / goal\<close> is not exactly halfway between two integers. At
  \<open>current = 0, goal = 100\<close> the percentage is 0 and the goal is not met; at
  \<open>current = 150, goal = 100\<close> the percentage is 100 and the goal is met.
\<close>

theorem printGoalsProgress_percent:
  assumes "0 \<le> todayMsgs" "0 \<le> weekMsgs"
    and "0 < daily goals" "daily goals \<le> 2 ^ 43"
    and "0 < weekly goals" "weekly goals \<le> 2 ^ 43"
  shows "let p = printGoalsProgress todayMsgs weekMsgs goals in
      dailyPct p = min (fmul (fdiv (of_int todayMsgs) (of_int (daily goals))) 100) 100
    \<and> (dailyStatus p = Check) = (daily goals \<le> todayMsgs)
    \<and> (daily goals \<le> todayMsgs \<or> dailyStatus p = Percent (round (dailyPct p)))
    \<and> 0 \<le> round (dailyPct p) \<and> round (dailyPct p) \<le> 100
    \<and> (daily goals \<le> todayMsgs \<longrightarrow> dailyPct p = 100)
    \<and> (frac (100 * of_int todayMsgs / of_int (daily goals) :: rat) \<noteq> 1 / 2 \<longrightarrow>
         round (dailyPct p) = min 100 (round (100 * of_int todayMsgs / of_int (daily goals) :: rat)))
    \<and> weeklyPct p = min (fmul (fdiv (of_int weekMsgs) (of_int (weekly goals))) 100) 100
    \<and> (weeklyStatus p = Check) = (weekly goals \<le> weekMsgs)
    \<and> (weekly goals \<le> weekMsgs \<or> weeklyStatus p = Percent (round (weeklyPct p)))
    \<and> 0 \<le> round (weeklyPct p) \<and> round (weeklyPct p) \<le> 100
    \<and> (weekly goals \<le> weekMsgs \<longrightarrow> weeklyPct p = 100)
    \<and> (frac (100 * of_int weekMsgs / of_int (weekly goals) :: rat) \<noteq> 1 / 2 \<longrightarrow>
         round (weeklyPct p) = min 100 (round (100 * of_int weekMsgs / of_int (weekly goals) :: rat)))
    \<and> printGoalsProgress 0 150 \<lparr> daily = 100, weekly = 100 \<rparr>
        = \<lparr> dailyPct = 0, dailyStatus = Percent 0, weeklyPct = 100, weeklyStatus = Check \<rparr>"
proof -
  define p where "p = printGoalsProgress todayMsgs weekMsgs goals"
  have d: "dailyPct p = pct todayMsgs (daily goals)"
    and w: "weeklyPct p = pct weekMsgs (weekly goals)"
    and ds: "dailyStatus p = (if daily goals \<le> todayMsgs then Check
               else Percent (round (pct todayMsgs (daily goals))))"
    and ws: "weeklyStatus p = (if weekly goals \<le> weekMsgs then Check
               else Percent (round (pct weekMsgs (weekly goals))))"
    by (simp_all add: p_def dailyPct_eq weeklyPct_eq dailyStatus_eq weeklyStatus_eq)
  have d0: "dailyPct p = min (fmul (fdiv (of_int todayMsgs) (of_int (daily goals))) 100) 100"
    by (simp add: d pct_def)
  have d1: "(dailyStatus p = Check) = (daily goals \<le> todayMsgs)" by (simp add: ds)
  have d2: "daily goals \<le> todayMsgs \<or> dailyStatus p = Percent (round (dailyPct p))"
    by (simp add: ds d)
  have d3: "0 \<le> round (dailyPct p)" "round (dailyPct p) \<le> 100"
    using pct_round_range [OF assms(1) assms(3)] by (simp_all add: d)
  have d4: "daily goals \<le> todayMsgs \<longrightarrow> dailyPct p = 100"
    using pct_met [OF assms(3)] by (simp add: d)
  have d5: "frac (100 * of_int todayMsgs / of_int (daily goals) :: rat) \<noteq> 1 / 2 \<longrightarrow>
         round (dailyPct p) = min 100 (round (100 * of_int todayMsgs / of_int (daily goals) :: rat))"
    using pct_exact [OF assms(1) assms(3) assms(4)] by (simp add: d)
  have w0: "weeklyPct p = min (fmul (fdiv (of_int weekMsgs) (of_int (weekly goals))) 100) 100"
    by (simp add: w pct_def)
  have w1: "(weeklyStatus p = Check) = (weekly goals \<le> weekMsgs)" by (simp add: ws)
  have w2: "weekly goals \<le> weekMsgs \<or> weeklyStatus p = Percent (round (weeklyPct p))"
    by (simp add: ws w)
  have w3: "0 \<le> round (weeklyPct p)" "round (weeklyPct p) \<le> 100"
    using pct_round_range [OF assms(2) assms(5)] by (simp_all add: w)
  have w4: "weekly goals \<le> weekMsgs \<longrightarrow> weeklyPct p = 100"
    using pct_met [OF assms(5)] by (simp add: w)
  have w5: "frac (100 * of_int weekMsgs / of_int (weekly goals) :: rat) \<noteq> 1 / 2 \<longrightarrow>
         round (weeklyPct p) = min 100 (round (100 * of_int weekMsgs / of_int (weekly goals) :: rat))"
    using pct_exact [OF assms(2) assms(5) assms(6)] by (simp add: w)
  have ex: "printGoalsProgress 0 150 \<lparr> daily = 100, weekly = 100 \<rparr>
        = \<lparr> dailyPct = 0, dailyStatus = Percent 0, weeklyPct = 100, weeklyStatus = Check \<rparr>"
    by code_simp
  from d0 d1 d2 d3 d4 d5 w0 w1 w2 w3 w4 w5 ex show ?thesis
    unfolding Let_def p_def by blast
qed

text \<open>
  The theorem at 1 message against a daily goal of 3 (33 percent) and 150 against a
  weekly goal of 100 (met, clamped to 100).
\<close>

theorem printGoalsProgress_percent_witness:
  "(0::int) \<le> 1 \<and> (0::int) \<le> 150
   \<and> 0 < daily \<lparr> daily = 3, weekly = 100 \<rparr> \<and> daily \<lparr> daily = 3, weekly = 100 \<rparr> \<le> 2 ^ 43
   \<and> 0 < weekly \<lparr> daily = 3, weekly = 100 \<rparr> \<and> weekly \<lparr> daily = 3, weekly = 100 \<rparr> \<le> 2 ^ 43
   \<and> frac (100 * of_int 1 / of_int 3 :: rat) \<noteq> 1 / 2
   \<and> round (dailyPct (printGoalsProgress 1 150 \<lparr> daily = 3, weekly = 100 \<rparr>)) = 33
   \<and> weekly \<lparr> daily = 3, weekly = 100 \<rparr> \<le> 150
   \<and> weeklyPct (printGoalsProgress 1 150 \<lparr> daily = 3, weekly = 100 \<rparr>) = 100"
proof -
  define G where "G = \<lparr> daily = 3, weekly = 100 \<rparr>"
  have a: "(0::int) \<le> 1" "(0::int) \<le> 150" "0 < daily G" "daily G \<le> 2 ^ 43"
    "0 < weekly G" "weekly G \<le> 2 ^ 43" "weekly G \<le> 150"
    by (simp_all add: G_def)
  have f: "frac (100 * of_int 1 / of_int (daily G) :: rat) \<noteq> 1 / 2"
    unfolding G_def by code_simp
  have r: "min 100 (round (100 * of_int 1 / of_int (daily G) :: rat)) = 33"
    unfolding G_def by code_simp
  note t = printGoalsProgress_percent [OF a(1-6), unfolded Let_def]
  from t f have "round (dailyPct (printGoalsProgress 1 150 G))
      = min 100 (round (100 * of_int 1 / of_int (daily G) :: rat))" by blast
  then have 1: "round (dailyPct (printGoalsProgress 1 150 G)) = 33" by (simp only: r)
  from t a(7) have 2: "weeklyPct (printGoalsProgress 1 150 G) = 100" by blast
  have f': "frac (100 * of_int 1 / of_int 3 :: rat) \<noteq> 1 / 2" using f by (simp add: G_def)
  from a 1 2 f' show ?thesis unfolding G_def by blast
qed

section \<open>Aggregated statistics\<close>

lemma bindE_simps [simp]: "bindE (Inr x) f = f x" "bindE (Inl e) f = Inl e"
  by (simp_all add: bindE_def)

lemma getProp_simps [simp]: "getProp f (Some r) = Inr (f r)" "getProp f None = Inl TypeError"
  by (simp_all add: getProp_def)

lemma reduce_no_null:
  "reduce (\<lambda>sum d. bindE (getProp f d) (\<lambda>v. Inr (g sum v))) a (map Some rs)
   = Inr (foldl (\<lambda>sum r. g sum (f r)) a rs)"
  by (induction rs arbitrary: a) simp_all


lemma filterE_no_null:
  "filterE (\<lambda>d. bindE (getProp f d) (\<lambda>v. Inr (P v))) (map Some rs)
   = Inr (map Some (filter (\<lambda>r. P (f r)) rs))"
  by (induction rs) simp_all

lemma aggregateStats_records:
  "aggregateStats (Array (map Some rs)) =
     Inr \<lparr> messages = foldl (\<lambda>sum r. fadd sum (of_int (or0 (messageCount r)))) 0 rs,
           sessions = foldl (\<lambda>sum r. fadd sum (of_int (or0 (sessionCount r)))) 0 rs,
           toolCalls = foldl (\<lambda>sum r. fadd sum (of_int (or0 (toolCallCount r)))) 0 rs,
           activeDays = length (filter (\<lambda>r. gt0 (messageCount r)) rs) \<rparr>"
  by (simp add: aggregateStats_def reduce_no_null filterE_no_null)



lemma fadd_sum_exact:
  "\<bar>a\<bar> + sum_list (map (\<lambda>r. \<bar>v r\<bar>) rs) < 2 ^ 53 \<Longrightarrow>
   foldl (\<lambda>sum r. fadd sum (of_int (v r))) (of_int a) rs = of_int (a + sum_list (map v rs))"
proof (induction rs arbitrary: a)
  case Nil
  show ?case by simp
next
  case (Cons r rs)
  have nn: "0 \<le> sum_list (map (\<lambda>r. \<bar>v r\<bar>) rs)" by (rule sum_list_nonneg) auto
  from Cons.prems nn have b: "\<bar>a + v r\<bar> < 2 ^ 53" by simp
  have step: "fadd (of_int a) (of_int (v r)) = of_int (a + v r)"
    using fl_of_int [OF b] by (simp add: fadd_def)
  have "\<bar>a + v r\<bar> + sum_list (map (\<lambda>r. \<bar>v r\<bar>) rs) < 2 ^ 53" using Cons.prems by simp
  from Cons.IH [OF this] show ?case by (simp add: step add.assoc)
qed

lemma fadd_sum_mono:
  assumes "\<And>x. x \<in> set xs \<Longrightarrow> 0 \<le> v x" "\<And>x. x \<in> set xs \<Longrightarrow> P x \<Longrightarrow> Q x"
    and "a \<le> b" "fl a = a"
  shows "foldl (\<lambda>sum r. fadd sum (v r)) a (filter P xs)
       \<le> foldl (\<lambda>sum r. fadd sum (v r)) b (filter Q xs)"
  using assms
proof (induction xs arbitrary: a b)
  case Nil
  then show ?case by simp
next
  case (Cons x xs)
  have vx: "0 \<le> v x" by (rule Cons.prems(1)) simp
  have pq: "P x \<Longrightarrow> Q x" by (rule Cons.prems(2)) simp_all
  have ih: "\<And>a b. a \<le> b \<Longrightarrow> fl a = a \<Longrightarrow>
      foldl (\<lambda>sum r. fadd sum (v r)) a (filter P xs)
       \<le> foldl (\<lambda>sum r. fadd sum (v r)) b (filter Q xs)"
    by (rule Cons.IH) (simp_all add: Cons.prems)
  show ?case
  proof (cases "Q x")
    case False
    with pq have "\<not> P x" by blast
    with False ih [OF Cons.prems(3) Cons.prems(4)] show ?thesis by simp
  next
    case True
    show ?thesis
    proof (cases "P x")
      case P: True
      have "fadd a (v x) \<le> fadd b (v x)"
        unfolding fadd_def using Cons.prems(3) by (intro fl_mono) simp
      moreover have "fl (fadd a (v x)) = fadd a (v x)" by (simp add: fadd_def fl_fl)
      ultimately show ?thesis using True P ih by simp
    next
      case False
      have "fl a \<le> fl (b + v x)" using Cons.prems(3) vx by (intro fl_mono) simp
      then have "a \<le> fadd b (v x)" by (simp add: fadd_def Cons.prems(4))
      with True False ih [OF _ Cons.prems(4)] show ?thesis by simp
    qed
  qed
qed

text \<open>
  The result of \<^verbatim>\<open>aggregateStats\<close> on records whose counts stay below \<open>2 ^ 53\<close>
  in sum.
\<close>

lemma aggregateStats_exact:
  assumes "(\<Sum>r\<leftarrow>rs. \<bar>or0 (messageCount r)\<bar>) < 2 ^ 53"
    and "(\<Sum>r\<leftarrow>rs. \<bar>or0 (sessionCount r)\<bar>) < 2 ^ 53"
    and "(\<Sum>r\<leftarrow>rs. \<bar>or0 (toolCallCount r)\<bar>) < 2 ^ 53"
  shows "aggregateStats (Array (map Some rs)) =
     Inr \<lparr> messages = of_int (\<Sum>r\<leftarrow>rs. or0 (messageCount r)),
           sessions = of_int (\<Sum>r\<leftarrow>rs. or0 (sessionCount r)),
           toolCalls = of_int (\<Sum>r\<leftarrow>rs. or0 (toolCallCount r)),
           activeDays = length (filter (\<lambda>r. gt0 (messageCount r)) rs) \<rparr>"
  using fadd_sum_exact [of 0 "\<lambda>r. or0 (messageCount r)" rs]
    fadd_sum_exact [of 0 "\<lambda>r. or0 (sessionCount r)" rs]
    fadd_sum_exact [of 0 "\<lambda>r. or0 (toolCallCount r)" rs] assms
  by (simp add: aggregateStats_records)





section \<open>The seven-day window\<close>

lemma msPerDay_pos: "0 < msPerDay"
  by (simp add: msPerDay_def)

lemma minusDays_shift:
  "minusDays tza t n =
     t - n * msPerDay + (tza t True - tza (LocalTime tza t - n * msPerDay) False)"
  by (simp add: minusDays_def toUTC_def LocalTime_def)

lemma minusDays_same_offset:
  "tza t True = tza (LocalTime tza t - n * msPerDay) False \<Longrightarrow>
   minusDays tza t n = t - n * msPerDay"
  by (simp add: minusDays_shift)

lemma minusDays_fixed [simp]: "minusDays (\<lambda>t isUTC. off) t n = t - n * msPerDay"
  by (simp add: minusDays_shift)

lemma minusDays_utc [simp]: "minusDays utc t n = t - n * msPerDay"
  by (simp add: minusDays_shift utc_def)

lemma formatDate_sub: "formatDate (t - n * msPerDay) = formatDate t - n"
proof -
  have "msPerDay \<noteq> 0" using msPerDay_pos by simp
  then have "(t + (- n) * msPerDay) div msPerDay = (- n) + t div msPerDay"
    by (rule div_mult_self1)
  then show ?thesis by (simp add: formatDate_def)
qed

lemma cutoff_iff:
  "c \<le> parseDate d \<longleftrightarrow> formatDate c < d \<or> (formatDate c = d \<and> c mod msPerDay = 0)"
proof -
  define q where "q = c div msPerDay"
  define r where "r = c mod msPerDay"
  have c: "c = q * msPerDay + r" by (simp add: q_def r_def)
  have r: "0 \<le> r" "r < msPerDay" using msPerDay_pos by (simp_all add: r_def)
  have "c \<le> parseDate d \<longleftrightarrow> (q - d) * msPerDay + r \<le> 0"
    by (simp add: parseDate_def c algebra_simps)
  also have "\<dots> \<longleftrightarrow> q < d \<or> (q = d \<and> r = 0)"
  proof
    assume a: "(q - d) * msPerDay + r \<le> 0"
    show "q < d \<or> (q = d \<and> r = 0)"
    proof (cases "q < d")
      case True
      then show ?thesis by simp
    next
      case False
      then have "0 \<le> (q - d) * msPerDay" using msPerDay_pos by simp
      with a r have z: "(q - d) * msPerDay = 0" "r = 0" by linarith+
      then have "q = d" using msPerDay_pos by simp
      with z show ?thesis by simp
    qed
  next
    assume "q < d \<or> (q = d \<and> r = 0)"
    then show "(q - d) * msPerDay + r \<le> 0"
    proof
      assume "q < d"
      then have "q - d \<le> - 1" by simp
      then have "(q - d) * msPerDay \<le> (- 1) * msPerDay"
        using msPerDay_pos by (intro mult_right_mono) simp_all
      with r show ?thesis by linarith
    next
      assume "q = d \<and> r = 0"
      then show ?thesis by simp
    qed
  qed
  finally show ?thesis by (simp add: q_def r_def formatDate_def)
qed

text \<open>
  Claim C2, as stated, fails: at noon UTC of day 7, in UTC, a record dated day 0 is
  at the calendar-day bound (\<open>0 \<ge> 7 - 7\<close>), so the window the specification words
  contains it, but \<^verbatim>\<open>getLast7Days\<close> compares the record's midnight with the
  instant seven days before now and drops it.
\<close>

theorem getLast7Days_counterexample:
  "getLast7Days utc 648000000
      [\<lparr> date = 0, messageCount = Some 5, sessionCount = Some 1, toolCallCount = Some 2 \<rparr>] = []
   \<and> formatDate 648000000 = 7
   \<and> filterLastNDays_spec 648000000 7
      [\<lparr> date = 0, messageCount = Some 5, sessionCount = Some 1, toolCallCount = Some 2 \<rparr>]
     = [\<lparr> date = 0, messageCount = Some 5, sessionCount = Some 1, toolCallCount = Some 2 \<rparr>]"
  by (simp add: getLast7Days_def filterLastNDays_spec_def formatDate_def
      parseDate_def msPerDay_def)

text \<open>
  Claim C2, amended. In every time zone \<^verbatim>\<open>getLast7Days\<close> returns exactly the
  records whose date, taken as midnight UTC, is at or after the cutoff: the instant
  at now's local wall-clock time seven local calendar days before now. It is a
  comparison of instants, not of calendar dates: the records dated after the
  cutoff's UTC date are in, and the record dated on the cutoff's UTC date is in only
  when the cutoff is midnight UTC sharp. When the zone's offset is the same at now
  and at the cutoff, the cutoff is seven times 24 hours before now, and in calendar
  days that is the window of the specification with bound 6 (today's UTC date and
  the six days before it, and any later date) at every time of day but midnight UTC
  sharp, where the bound is 7.
\<close>

theorem getLast7Days_window:
  "getLast7Days tza now activity =
     filter (\<lambda>d. minusDays tza now 7 \<le> parseDate (date d)) activity
   \<and> getLast7Days tza now activity =
     filter (\<lambda>d. formatDate (minusDays tza now 7) < date d
               \<or> (formatDate (minusDays tza now 7) = date d
                  \<and> minusDays tza now 7 mod msPerDay = 0)) activity
   \<and> (tza now True = tza (LocalTime tza now - 7 * msPerDay) False \<longrightarrow>
        minusDays tza now 7 = now - 7 * msPerDay
        \<and> getLast7Days tza now activity =
            filterLastNDays_spec now (if now mod msPerDay = 0 then 7 else 6) activity)"
proof -
  have 1: "getLast7Days tza now activity =
     filter (\<lambda>d. minusDays tza now 7 \<le> parseDate (date d)) activity"
    by (simp add: getLast7Days_def)
  have 2: "getLast7Days tza now activity =
     filter (\<lambda>d. formatDate (minusDays tza now 7) < date d
               \<or> (formatDate (minusDays tza now 7) = date d
                  \<and> minusDays tza now 7 mod msPerDay = 0)) activity"
    unfolding 1 by (rule filter_cong) (simp_all only: cutoff_iff)
  have 3: "minusDays tza now 7 = now - 7 * msPerDay
        \<and> getLast7Days tza now activity =
            filterLastNDays_spec now (if now mod msPerDay = 0 then 7 else 6) activity"
    if same: "tza now True = tza (LocalTime tza now - 7 * msPerDay) False"
  proof -
    have m: "minusDays tza now 7 = now - 7 * msPerDay"
      using same by (rule minusDays_same_offset)
    have md: "(now - 7 * msPerDay) mod msPerDay = now mod msPerDay"
      by (simp add: mod_diff_eq [symmetric, of now "7 * msPerDay" msPerDay])
    have "getLast7Days tza now activity =
            filterLastNDays_spec now (if now mod msPerDay = 0 then 7 else 6) activity"
      unfolding 2 m filterLastNDays_spec_def
      by (rule filter_cong) (auto simp: formatDate_sub md)
    with m show ?thesis by blast
  qed
  from 1 2 3 show ?thesis by blast
qed

text \<open>
  The theorem in UTC at noon of day 14, on records dated days 6 to 9: the records
  of days 8 and 9 are in.
\<close>

theorem getLast7Days_window_witness:
  "utc 1252800000 True = utc (LocalTime utc 1252800000 - 7 * msPerDay) False
   \<and> formatDate 1252800000 = 14
   \<and> map date (getLast7Days utc 1252800000
        (map (\<lambda>d. \<lparr> date = int d, messageCount = Some 100, sessionCount = Some 1,
                      toolCallCount = Some 5 \<rparr>) [6 ..< 10]))
       = [8, 9]"
proof -
  define H :: "daily_activity list" where "H = map (\<lambda>d. \<lparr> date = int d, messageCount = Some 100,
     sessionCount = Some 1, toolCallCount = Some 5 \<rparr>) [6 ..< 10]"
  have h: "utc 1252800000 True = utc (LocalTime utc 1252800000 - 7 * msPerDay) False"
    by (simp add: utc_def)
  have f: "formatDate 1252800000 = 14" "(1252800000::int) mod msPerDay \<noteq> 0"
    by (simp_all add: formatDate_def msPerDay_def)
  from getLast7Days_window [of utc 1252800000 H] h
  have "getLast7Days utc 1252800000 H =
      filterLastNDays_spec 1252800000 (if 1252800000 mod msPerDay = 0 then 7 else 6) H"
    by blast
  then have "getLast7Days utc 1252800000 H = filterLastNDays_spec 1252800000 6 H"
    using f(2) by simp
  moreover have "map date (filterLastNDays_spec 1252800000 6 H) = [8, 9]"
    unfolding H_def by code_simp
  ultimately have "map date (getLast7Days utc 1252800000 H) = [8, 9]" by simp
  with h f(1) show ?thesis unfolding H_def by blast
qed

text \<open>
  Across the start of daylight saving time the cutoff is 167 hours back. At 23:30
  UTC on 10 March 2024 (19:30 in New York) the cutoff in New York is 00:30 UTC on
  4 March, and the record dated 4 March is left out; in UTC, at the same instant,
  the cutoff is 23:30 UTC on 3 March and the record is in.
\<close>

lemma getLast7Days_new_york:
  "minusDays new_york_2024 1710113400000 7 = 1709512200000
   \<and> getLast7Days new_york_2024 1710113400000
      [\<lparr> date = 19786, messageCount = Some 5, sessionCount = Some 1, toolCallCount = Some 2 \<rparr>] = []
   \<and> getLast7Days utc 1710113400000
      [\<lparr> date = 19786, messageCount = Some 5, sessionCount = Some 1, toolCallCount = Some 2 \<rparr>]
     = [\<lparr> date = 19786, messageCount = Some 5, sessionCount = Some 1, toolCallCount = Some 2 \<rparr>]
   \<and> formatDate 1710113400000 = 19792"
  by (simp add: getLast7Days_def minusDays_def toUTC_def LocalTime_def new_york_2024_def utc_def
      formatDate_def parseDate_def msPerDay_def)

text \<open>
  \<^verbatim>\<open>getPrev7Days\<close>, the window the trend is compared against, ends where
  \<^verbatim>\<open>getLast7Days\<close> begins: no record is in both.
\<close>

lemma getPrev7Days_disjoint:
  "set (getPrev7Days tza now activity) \<inter> set (getLast7Days tza now activity) = {}"
  by (auto simp: getPrev7Days_def getLast7Days_def Let_def)

lemma today_in_last7:
  assumes "\<forall>t isUTC. \<bar>tza t isUTC\<bar> \<le> msPerDay"
  shows "minusDays tza now 7 \<le> parseDate (formatDate now)"
proof -
  have a: "tza now True \<le> msPerDay" "- msPerDay \<le> tza (LocalTime tza now - 7 * msPerDay) False"
    using assms [rule_format, of now True]
      assms [rule_format, of "LocalTime tza now - 7 * msPerDay" False] by linarith+
  have "now = formatDate now * msPerDay + now mod msPerDay" by (simp add: formatDate_def)
  moreover have "now mod msPerDay < msPerDay" using msPerDay_pos by simp
  ultimately have "now - msPerDay < parseDate (formatDate now)" by (simp add: parseDate_def)
  with a msPerDay_pos show ?thesis by (simp add: minusDays_shift)
qed

text \<open>
  Claim C3. For every history of records with non-negative message counts, every
  reference time and every time zone (offsets are at most a day), the today subset
  is contained in the last-7-days subset (a record dated today always passes the
  7-day cutoff), \<^verbatim>\<open>aggregateStats\<close> returns on both, and the messages total of the
  last-7-days subset is at least that of the today subset.
\<close>

theorem last7_messages_ge_today:
  assumes "\<forall>d \<in> set H. \<forall>n. messageCount d = Some n \<longrightarrow> 0 \<le> n"
    and "\<forall>t isUTC. \<bar>tza t isUTC\<bar> \<le> msPerDay"
  shows "set (filterToday now H) \<subseteq> set (getLast7Days tza now H)
       \<and> (\<exists>today week.
             aggregateStats (Array (map Some (filterToday now H))) = Inr today
           \<and> aggregateStats (Array (map Some (getLast7Days tza now H))) = Inr week
           \<and> messages today \<le> messages week)"
proof -
  have nn: "\<And>d. d \<in> set H \<Longrightarrow> 0 \<le> (of_int (or0 (messageCount d)) :: rat)"
    using assms(1) by (auto simp: or0_def split: option.splits)
  have sub: "\<And>d. d \<in> set H \<Longrightarrow> date d = formatDate now \<Longrightarrow>
      minusDays tza now 7 \<le> parseDate (date d)"
    using today_in_last7 [OF assms(2)] by simp
  have "foldl (\<lambda>sum r. fadd sum (of_int (or0 (messageCount r)))) 0
          (filter (\<lambda>d. date d = formatDate now) H)
        \<le> foldl (\<lambda>sum r. fadd sum (of_int (or0 (messageCount r)))) 0
          (filter (\<lambda>d. minusDays tza now 7 \<le> parseDate (date d)) H)"
    using nn sub by (rule fadd_sum_mono) simp_all
  then have "messages (projr (aggregateStats (Array (map Some (filterToday now H)))))
           \<le> messages (projr (aggregateStats (Array (map Some (getLast7Days tza now H)))))"
    by (simp add: aggregateStats_records filterToday_def getLast7Days_def)
  then have "\<exists>today week.
             aggregateStats (Array (map Some (filterToday now H))) = Inr today
           \<and> aggregateStats (Array (map Some (getLast7Days tza now H))) = Inr week
           \<and> messages today \<le> messages week"
    by (simp add: aggregateStats_records)
  moreover have "set (filterToday now H) \<subseteq> set (getLast7Days tza now H)"
    using sub by (auto simp: filterToday_def getLast7Days_def)
  ultimately show ?thesis by blast
qed

text \<open>
  The theorem in New York on a history of two records, one dated today (day 10, at
  01:00 UTC) and one a week old.
\<close>

theorem last7_messages_ge_today_witness:
  "(\<exists>today week.
      aggregateStats (Array (map Some (filterToday 867600000
        [\<lparr> date = 3, messageCount = Some 7, sessionCount = Some 1, toolCallCount = None \<rparr>,
         \<lparr> date = 10, messageCount = Some 5, sessionCount = Some 1, toolCallCount = Some 2 \<rparr>])))
        = Inr today
    \<and> aggregateStats (Array (map Some (getLast7Days new_york_2024 867600000
        [\<lparr> date = 3, messageCount = Some 7, sessionCount = Some 1, toolCallCount = None \<rparr>,
         \<lparr> date = 10, messageCount = Some 5, sessionCount = Some 1, toolCallCount = Some 2 \<rparr>])))
        = Inr week
    \<and> messages today = 5 \<and> 5 \<le> messages week)"
proof -
  define H :: "daily_activity list" where "H =
     [\<lparr> date = 3, messageCount = Some 7, sessionCount = Some 1, toolCallCount = None \<rparr>,
      \<lparr> date = 10, messageCount = Some 5, sessionCount = Some 1, toolCallCount = Some 2 \<rparr>]"
  have h: "\<forall>d \<in> set H. \<forall>n. messageCount d = Some n \<longrightarrow> 0 \<le> n"
    by (simp add: H_def)
  have z: "\<forall>t isUTC. \<bar>new_york_2024 t isUTC\<bar> \<le> msPerDay"
    by (simp add: new_york_2024_def msPerDay_def)
  have t: "aggregateStats (Array (map Some (filterToday 867600000 H)))
      = Inr \<lparr> messages = 5, sessions = 1, toolCalls = 2, activeDays = 1 \<rparr>"
    unfolding H_def by code_simp
  from last7_messages_ge_today [OF h z, of 867600000] t
  obtain week where "aggregateStats (Array (map Some (getLast7Days new_york_2024 867600000 H)))
        = Inr week" "5 \<le> messages week" by auto
  with t show ?thesis unfolding H_def by auto
qed

section \<open>The streak\<close>

lemma find_filter_hd:
  "find P xs = (case filter P xs of [] \<Rightarrow> None | x # _ \<Rightarrow> Some x)"
  by (induction xs) simp_all

lemma find_sort_key_date:
  "find (\<lambda>d. date d = e) (sort_key (\<lambda>d. - date d) xs) = find (\<lambda>d. date d = e) xs"
proof -
  have "filter (\<lambda>d. - date d = - e) (sort_key (\<lambda>d. - date d) xs)
        = filter (\<lambda>d. - date d = - e) xs"
    by (rule sort_key_stable)
  then have "filter (\<lambda>d. date d = e) (sort_key (\<lambda>d. - date d) xs)
        = filter (\<lambda>d. date d = e) xs"
    by simp
  then show ?thesis by (simp add: find_filter_hd)
qed

lemma find_distinct_date:
  "distinct (map date xs) \<Longrightarrow> d \<in> set xs \<Longrightarrow> find (\<lambda>x. date x = date d) xs = Some d"
  by (induction xs) (auto simp: image_iff)

lemma streak_loop_run:
  assumes "1 \<le> i" "i \<le> K + 1"
    and "\<And>j. j \<le> K + 1 \<Longrightarrow> formatDate (minusDays tza now (int j)) = formatDate now - int j"
    and "\<And>j. i \<le> j \<Longrightarrow> j \<le> K \<Longrightarrow>
           (case find (\<lambda>d. date d = formatDate now - int j) srt of
              None \<Rightarrow> False | Some d \<Rightarrow> gt0 (messageCount d))"
    and "\<not> (case find (\<lambda>d. date d = formatDate now - int (K + 1)) srt of
              None \<Rightarrow> False | Some d \<Rightarrow> gt0 (messageCount d))"
  shows "streak_loop tza now srt i s = s + (min (K + 1) (length srt) - i)"
  using assms(1,2,4)
proof (induction n \<equiv> "K + 1 - i" arbitrary: i s)
  case 0
  then have i: "i = K + 1" by simp
  show ?case
    using assms(5) assms(3) [of "K + 1"] unfolding i
    by (subst streak_loop.simps) (simp add: Let_def)
next
  case (Suc n)
  then have iK: "i \<le> K" by simp
  have act: "(case find (\<lambda>d. date d = formatDate now - int i) srt of
              None \<Rightarrow> False | Some d \<Rightarrow> gt0 (messageCount d))"
    using Suc.prems(3) [of i] iK by simp
  show ?case
  proof (cases "i < length srt")
    case False
    then show ?thesis by (subst streak_loop.simps) simp
  next
    case True
    have step: "streak_loop tza now srt i s = streak_loop tza now srt (i + 1) (s + 1)"
      using True act assms(3) [of i] iK by (subst streak_loop.simps) (simp add: Let_def)
    have "streak_loop tza now srt (i + 1) (s + 1) = (s + 1) + (min (K + 1) (length srt) - (i + 1))"
    proof (rule Suc.hyps(1))
      show "n = K + 1 - (i + 1)" using Suc.hyps(2) by simp
      show "1 \<le> i + 1" by simp
      show "i + 1 \<le> K + 1" using iK by simp
      show "\<And>j. i + 1 \<le> j \<Longrightarrow> j \<le> K \<Longrightarrow>
           (case find (\<lambda>d. date d = formatDate now - int j) srt of
              None \<Rightarrow> False | Some d \<Rightarrow> gt0 (messageCount d))"
        using Suc.prems(3) by simp
    qed
    with step True iK show ?thesis by simp
  qed
qed

text \<open>
  What \<^verbatim>\<open>calculateStreak\<close> returns when today has no active record, the \<open>K\<close> days
  before today each have one, and the day before those has none (dates distinct, and
  stepping back \<open>j\<close> local days from now lands on the UTC date \<open>j\<close> days before
  today's, as it does in a zone with a fixed offset): \<open>K\<close> when the history holds
  more than \<open>K\<close> records, but \<open>K - 1\<close> when it holds exactly those \<open>K\<close>. The loop
  runs \<^verbatim>\<open>sorted.length\<close> times, and skipping today uses one of them up.
\<close>

lemma calculateStreak_pending_today:
  assumes "distinct (map date H)"
    and "\<forall>j. j \<le> K + 1 \<longrightarrow> formatDate (minusDays tza now (int j)) = formatDate now - int j"
    and "\<forall>d\<in>set H. date d = formatDate now \<longrightarrow> \<not> gt0 (messageCount d)"
    and "\<forall>j. 1 \<le> j \<and> j \<le> K \<longrightarrow>
           (\<exists>d\<in>set H. date d = formatDate now - int j \<and> gt0 (messageCount d))"
    and "\<forall>d\<in>set H. date d = formatDate now - int (K + 1) \<longrightarrow> \<not> gt0 (messageCount d)"
  shows "calculateStreak tza now H = min K (length H - 1)"
proof -
  define srt where "srt = sort_key (\<lambda>d. - date d) H"
  have len: "length srt = length H" by (simp add: srt_def)
  have fnd: "\<And>e. find (\<lambda>d. date d = e) srt = find (\<lambda>d. date d = e) H"
    by (simp add: srt_def find_sort_key_date)
  have days: "\<And>j. j \<le> K + 1 \<Longrightarrow> formatDate (minusDays tza now (int j)) = formatDate now - int j"
    using assms(2) by blast
  have inact: "\<And>e. \<forall>d\<in>set H. date d = e \<longrightarrow> \<not> gt0 (messageCount d) \<Longrightarrow>
      \<not> (case find (\<lambda>d. date d = e) srt of None \<Rightarrow> False | Some d \<Rightarrow> gt0 (messageCount d))"
  proof -
    fix e assume a: "\<forall>d\<in>set H. date d = e \<longrightarrow> \<not> gt0 (messageCount d)"
    show "\<not> (case find (\<lambda>d. date d = e) srt of None \<Rightarrow> False | Some d \<Rightarrow> gt0 (messageCount d))"
    proof (cases "find (\<lambda>d. date d = e) H")
      case None
      then show ?thesis by (simp add: fnd)
    next
      case (Some d)
      then have "d \<in> set H" "date d = e" by (auto simp: find_Some_iff)
      with a Some show ?thesis by (simp add: fnd)
    qed
  qed
  have act: "\<And>j. 1 \<le> j \<Longrightarrow> j \<le> K \<Longrightarrow>
           (case find (\<lambda>d. date d = formatDate now - int j) srt of
              None \<Rightarrow> False | Some d \<Rightarrow> gt0 (messageCount d))"
  proof -
    fix j assume "1 \<le> j" "j \<le> K"
    with assms(4) obtain d where d: "d \<in> set H" "date d = formatDate now - int j"
      "gt0 (messageCount d)" by blast
    from find_distinct_date [OF assms(1) d(1)] d(2)
    have "find (\<lambda>x. date x = formatDate now - int j) H = Some d" by simp
    with d(3) show "(case find (\<lambda>d. date d = formatDate now - int j) srt of
              None \<Rightarrow> False | Some d \<Rightarrow> gt0 (messageCount d))"
      by (simp add: fnd)
  qed
  have last: "\<not> (case find (\<lambda>d. date d = formatDate now - int (K + 1)) srt of
              None \<Rightarrow> False | Some d \<Rightarrow> gt0 (messageCount d))"
    using assms(5) by (rule inact)
  have first: "\<not> (case find (\<lambda>d. date d = formatDate now) srt of
              None \<Rightarrow> False | Some d \<Rightarrow> gt0 (messageCount d))"
    using assms(3) by (rule inact)
  have run: "streak_loop tza now srt 1 0 = 0 + (min (K + 1) (length srt) - 1)"
    by (rule streak_loop_run [OF _ _ days act last]) simp_all
  show ?thesis
  proof (cases "H = []")
    case True
    then show ?thesis
      by (simp add: calculateStreak_def) (subst streak_loop.simps, simp)
  next
    case False
    then have "0 < length srt" by (simp add: len)
    then have "streak_loop tza now srt 0 0 = streak_loop tza now srt 1 0"
      using first days [of 0] by (subst streak_loop.simps) (simp add: Let_def)
    with run have "streak_loop tza now srt 0 0 = min (K + 1) (length H) - 1" by (simp add: len)
    then show ?thesis by (simp add: calculateStreak_def srt_def [symmetric] Let_def)
  qed
qed

text \<open>
  Claim C1 asks for \<open>K\<close> there. At 01:00 UTC of day 10, in UTC, on a history whose
  only record is yesterday's with 5 messages (\<open>K = 1\<close>), \<^verbatim>\<open>calculateStreak\<close>
  returns 0: the loop skips today at \<open>i = 0\<close> and ends at \<open>i = 1 = sorted.length\<close>
  before it looks at yesterday.
\<close>

theorem calculateStreak_yesterday_only:
  "calculateStreak utc 867600000
     [\<lparr> date = 9, messageCount = Some 5, sessionCount = Some 1, toolCallCount = Some 0 \<rparr>] = 0
   \<and> formatDate 867600000 = 10"
  by (simp add: calculateStreak_def streak_loop.simps formatDate_def
      msPerDay_def gt0_def)

text \<open>The same in every zone with a fixed offset from UTC.\<close>

lemma calculateStreak_yesterday_only_fixed_offset:
  "calculateStreak (\<lambda>t isUTC. off) 867600000
     [\<lparr> date = 9, messageCount = Some 5, sessionCount = Some 1, toolCallCount = Some 0 \<rparr>] = 0"
  by (simp add: calculateStreak_def streak_loop.simps formatDate_def
      msPerDay_def gt0_def)

text \<open>
  Fourteen consecutive daily records of 100 messages, 1 session and 5 tool calls,
  the last one dated today, read at noon UTC: the last seven days hold seven of
  them, and the streak is fourteen.
\<close>

lemma fortnight_scenario:
  "aggregateStats (Array (map Some (getLast7Days utc 1252800000
     (map (\<lambda>d. \<lparr> date = int d, messageCount = Some 100, sessionCount = Some 1,
                   toolCallCount = Some 5 \<rparr>) [1 ..< 15]))))
   = Inr \<lparr> messages = 700, sessions = 7, toolCalls = 35, activeDays = 7 \<rparr>
   \<and> calculateStreak utc 1252800000
     (map (\<lambda>d. \<lparr> date = int d, messageCount = Some 100, sessionCount = Some 1,
                   toolCallCount = Some 5 \<rparr>) [1 ..< 15]) = 14
   \<and> formatDate 1252800000 = 14"
proof -
  define rec :: "nat \<Rightarrow> daily_activity" where "rec = (\<lambda>d. \<lparr> date = int d,
     messageCount = Some 100, sessionCount = Some 1, toolCallCount = Some 5 \<rparr>)"
  have w: "getLast7Days utc 1252800000 (map rec [1 ..< 15]) = map rec [8 ..< 15]"
    unfolding rec_def by code_simp
  have a: "aggregateStats (Array (map Some (map rec [8 ..< 15])))
      = Inr \<lparr> messages = 700, sessions = 7, toolCalls = 35, activeDays = 7 \<rparr>"
    by (subst aggregateStats_exact) (simp_all add: rec_def or0_def gt0_def upt_rec [of 8] upt_rec [of 9]
        upt_rec [of 10] upt_rec [of 11] upt_rec [of 12] upt_rec [of 13] upt_rec [of 14])
  have s: "calculateStreak utc 1252800000 (map rec [1 ..< 15]) = 14"
    unfolding rec_def by code_simp
  have f: "formatDate 1252800000 = 14" by (simp add: formatDate_def msPerDay_def)
  from w a s f show ?thesis unfolding rec_def by simp
qed

section \<open>Token totals\<close>









section \<open>The quota fetch never throws\<close>

lemma fetchQuota_cases:
  "fetchQuota fetch auth = Inr None \<or> (\<exists>q. fetchQuota fetch auth = Inr (Some q))"
  by (auto simp: fetchQuota_def split: option.splits sum.splits)

text \<open>
  Claim C8. Whatever the credential and whatever the network does, \<^verbatim>\<open>fetchQuota\<close>
  returns and throws nothing; a transport failure, a response that is not ok and a
  body that is not JSON each give \<^verbatim>\<open>null\<close>, and an ok response to an OAuth
  credential gives its body. (How long the fetch takes is outside the model.)
\<close>

theorem fetchQuota_never_throws:
  "(\<exists>r. fetchQuota fetch auth = Inr r)
   \<and> (\<forall>a e. auth = Some a \<and> fetch (bearer a) = Inl e \<longrightarrow> fetchQuota fetch auth = Inr None)
   \<and> (\<forall>a response. auth = Some a \<and> fetch (bearer a) = Inr response \<and> \<not> ok response
         \<longrightarrow> fetchQuota fetch auth = Inr None)
   \<and> (\<forall>a response e. auth = Some a \<and> fetch (bearer a) = Inr response \<and> json response = Inl e
         \<longrightarrow> fetchQuota fetch auth = Inr None)
   \<and> (\<forall>a response q. auth = Some a \<and> auth_type a = ''oauth'' \<and> fetch (bearer a) = Inr response
         \<and> ok response \<and> json response = Inr q
         \<longrightarrow> fetchQuota fetch auth = Inr (Some q))"
proof -
  have 1: "\<exists>r. fetchQuota fetch auth = Inr r"
    using fetchQuota_cases [of fetch auth] by blast
  have 2: "\<forall>a e. auth = Some a \<and> fetch (bearer a) = Inl e \<longrightarrow> fetchQuota fetch auth = Inr None"
    by (auto simp: fetchQuota_def fetchQuota_try_def split: option.splits sum.splits)
  have 3: "\<forall>a response. auth = Some a \<and> fetch (bearer a) = Inr response \<and> \<not> ok response
         \<longrightarrow> fetchQuota fetch auth = Inr None"
    by (auto simp: fetchQuota_def fetchQuota_try_def split: option.splits sum.splits)
  have 4: "\<forall>a response e. auth = Some a \<and> fetch (bearer a) = Inr response \<and> json response = Inl e
         \<longrightarrow> fetchQuota fetch auth = Inr None"
    by (auto simp: fetchQuota_def fetchQuota_try_def split: option.splits sum.splits)
  have 5: "\<forall>a response q. auth = Some a \<and> auth_type a = ''oauth'' \<and> fetch (bearer a) = Inr response
         \<and> ok response \<and> json response = Inr q
         \<longrightarrow> fetchQuota fetch auth = Inr (Some q)"
    by (auto simp: fetchQuota_def fetchQuota_try_def split: option.splits sum.splits)
  from 1 2 3 4 5 show ?thesis by blast
qed

text \<open>
  The theorem on a server that answers with a status that is not ok, and on a
  network that fails.
\<close>

theorem fetchQuota_never_throws_witness:
  "fetchQuota (\<lambda>h. if h = ''Bearer tok'' then Inr \<lparr> ok = False, json = Inr (42::nat) \<rparr>
                   else Inl NetworkError)
     (Some \<lparr> auth_type = ''oauth'', accessToken = Some ''tok'' \<rparr>) = Inr None
   \<and> fetchQuota (\<lambda>h. Inl NetworkError :: exn + nat response)
     (Some \<lparr> auth_type = ''oauth'', accessToken = None \<rparr>) = Inr None"
proof -
  define a where "a = \<lparr> auth_type = ''oauth'', accessToken = Some ''tok'' \<rparr>"
  define f :: "string \<Rightarrow> exn + nat response"
    where "f = (\<lambda>h. if h = ''Bearer tok'' then Inr \<lparr> ok = False, json = Inr 42 \<rparr>
                   else Inl NetworkError)"
  have b: "bearer a = ''Bearer tok''" by (simp add: bearer_def a_def)
  have "fetch_res = f (bearer a) \<Longrightarrow> fetch_res = Inr \<lparr> ok = False, json = Inr 42 \<rparr>" for fetch_res
    by (simp add: f_def b)
  then have fr: "f (bearer a) = Inr \<lparr> ok = False, json = Inr 42 \<rparr>" by simp
  from fetchQuota_never_throws [of f "Some a"] fr
  have 1: "fetchQuota f (Some a) = Inr None" by fastforce
  define a2 where "a2 = \<lparr> auth_type = ''oauth'', accessToken = None \<rparr>"
  from fetchQuota_never_throws [of "\<lambda>h. Inl NetworkError :: exn + nat response" "Some a2"]
  have 2: "fetchQuota (\<lambda>h. Inl NetworkError :: exn + nat response) (Some a2) = Inr None"
    by blast
  from 1 2 show ?thesis unfolding a_def f_def a2_def by blast
qed

section \<open>Start-up and render failures\<close>

lemma render_catch_watch:
  "exit_code (render_catch True err p) = exit_code p"
  "timers (render_catch True err p) = timers p"
  "printed (render_catch True err p) = printed p @ [Error err]"
  "pending (render_catch True err p) = pending p"
  by (simp_all add: render_catch_def)

lemma render_print_watch:
  "exit_code (render_print True printing p) = exit_code p"
  "timers (render_print True printing p) = timers p"
  by (simp_all add: render_print_def render_catch_watch split: option.splits)

lemma render_watch:
  "exit_code (render True e p) = exit_code p"
  "timers (render True e p) = timers p"
  by (simp_all add: render_def render_print_watch render_catch_watch split: file_state.splits)

lemma settle_watch:
  "exit_code (settle True p) = exit_code p"
  "timers (settle True p) = timers p"
  by (simp_all add: settle_def render_print_watch split: list.splits)

lemma handle_no_quit:
  assumes "ev \<noteq> Key_q" "ev \<noteq> Signal"
  shows "exit_code (handle ev e p) = exit_code p" "timers (handle ev e p) = timers p"
  using assms by (cases ev; simp add: handle_def render_watch settle_watch Let_def)+

lemma run_no_quit:
  assumes "\<forall>(ev, e) \<in> set evs. ev \<noteq> Key_q \<and> ev \<noteq> Signal"
  shows "exit_code (run evs p) = exit_code p \<and> timers (run evs p) = timers p"
  using assms
proof (induction evs arbitrary: p)
  case Nil
  show ?case by simp
next
  case (Cons x evs)
  obtain ev e where x: "x = (ev, e)" by (cases x)
  from Cons.prems x have nq: "ev \<noteq> Key_q" "ev \<noteq> Signal"
    and rest: "\<forall>(ev, e) \<in> set evs. ev \<noteq> Key_q \<and> ev \<noteq> Signal" by auto
  show ?case
    using Cons.IH [OF rest, of "handle ev e p"] handle_no_quit [OF nq, of e p]
    by (simp add: x)
qed

lemma run_append: "run (xs @ ys) p = run ys (run xs p)"
proof (induction xs arbitrary: p)
  case Nil
  show ?case by simp
next
  case (Cons x xs)
  obtain ev e where x: "x = (ev, e)" by (cases x)
  show ?case
  proof (cases "exit_code p = None")
    case True
    then show ?thesis by (simp add: x Cons.IH)
  next
    case False
    then have "run ys p = p" by (cases ys) auto
    with False show ?thesis by (simp add: x)
  qed
qed

lemma main_absent:
  "main watchMode Absent e p
     = p\<lparr>printed := printed p @ [NotFound, Guidance], exit_code := Some 1\<rparr>"
  by (simp add: main_def)

lemma main_watch:
  assumes "at_check \<noteq> Absent"
  shows "exit_code (main True at_check e start) = None" "timers (main True at_check e start) = 3"
  using assms by (simp_all add: main_def Let_def render_watch start_def)

lemma run_once_fails:
  assumes "at_check \<noteq> Absent" "stats_file e \<noteq> Valid None"
  shows "exit_code (run_once at_check e) = Some 1 \<and> (\<exists>err. printed (run_once at_check e) = [Error err])"
proof (cases "stats_file e")
  case Absent
  with assms(1) show ?thesis
    by (simp add: run_once_def main_def render_def render_catch_def start_def)
next
  case Malformed
  with assms(1) show ?thesis
    by (simp add: run_once_def main_def render_def render_catch_def start_def)
next
  case (Valid printing)
  with assms(2) obtain err where "printing = Some err" by (cases printing) auto
  with Valid assms(1) show ?thesis
    by (cases "oauth e")
      (simp_all add: run_once_def main_def render_def render_print_def render_catch_def
        settle_def start_def)
qed

lemma trigger_render:
  assumes "trigger = RefreshTimer \<or> trigger = FileChanged \<or> trigger = Key_r"
  shows "handle trigger e p = render True e p"
  using assms by (auto simp: handle_def)

text \<open>
  Claim C9, as stated, fails in watch mode: when the stats file is absent at
  start-up, \<^verbatim>\<open>main\<close> exits with status 1 before it reaches the watch branch, with
  no timer registered; no scheduler keeps running.
\<close>

theorem main_watch_absent_counterexample:
  "exit_code (main True Absent \<lparr> stats_file = Absent, oauth = False \<rparr> start) = Some 1
   \<and> timers (main True Absent \<lparr> stats_file = Absent, oauth = False \<rparr> start) = 0
   \<and> printed (main True Absent \<lparr> stats_file = Absent, oauth = False \<rparr> start)
       = [NotFound, Guidance]"
  by (simp add: main_def start_def)

text \<open>
  Claim C9, amended. When the stats file is absent at start-up, \<^verbatim>\<open>main\<close> reports
  the error with the guidance line and exits with status 1, in watch mode as
  without it; no render runs and no timer is registered. Once the file was there at
  start-up: without watch mode a render that fails (the file gone since, not JSON,
  or an error while printing, before or after the quota fetch) reports the error
  and exits with status 1; in watch mode \<^verbatim>\<open>main\<close> registers its three timers and
  does not exit, through any sequence of triggers other than quit the process keeps
  running with its timers, and each further trigger (the refresh timer, a file
  change, the \<^verbatim>\<open>r\<close> key) renders again: on a missing file it reports the error,
  on a readable file it prints the stats, at once or, with an OAuth credential,
  when the quota fetch has settled.
\<close>

theorem stats_file_failures:
  "main watchMode Absent e start
     = \<lparr> printed = [NotFound, Guidance], exit_code = Some 1, timers = 0, pending = [] \<rparr>
   \<and> (at_check \<noteq> Absent \<and> stats_file e \<noteq> Valid None \<longrightarrow>
        exit_code (run_once at_check e) = Some 1
        \<and> (\<exists>err. printed (run_once at_check e) = [Error err]))
   \<and> (at_check \<noteq> Absent \<and> (\<forall>(ev, env) \<in> set evs. ev \<noteq> Key_q \<and> ev \<noteq> Signal) \<longrightarrow>
        exit_code (run evs (main True at_check e start)) = None
        \<and> timers (run evs (main True at_check e start)) = 3
        \<and> ((trigger = RefreshTimer \<or> trigger = FileChanged \<or> trigger = Key_r) \<longrightarrow>
            (stats_file e' = Absent \<longrightarrow>
               printed (run (evs @ [(trigger, e')]) (main True at_check e start))
                 = printed (run evs (main True at_check e start)) @ [Error ENOENT])
          \<and> (stats_file e' = Malformed \<longrightarrow>
               printed (run (evs @ [(trigger, e')]) (main True at_check e start))
                 = printed (run evs (main True at_check e start)) @ [Error SyntaxError])
          \<and> (stats_file e' = Valid None \<and> \<not> oauth e' \<longrightarrow>
               printed (run (evs @ [(trigger, e')]) (main True at_check e start))
                 = printed (run evs (main True at_check e start)) @ [Stats])
          \<and> (stats_file e' = Valid None \<and> oauth e'
                \<and> pending (run evs (main True at_check e start)) = [] \<longrightarrow>
               printed (run (evs @ [(trigger, e'), (QuotaSettled, e'')]) (main True at_check e start))
                 = printed (run evs (main True at_check e start)) @ [Stats])))"
proof -
  have 1: "main watchMode Absent e start
     = \<lparr> printed = [NotFound, Guidance], exit_code = Some 1, timers = 0, pending = [] \<rparr>"
    by (simp add: main_absent start_def)
  have 2: "at_check \<noteq> Absent \<and> stats_file e \<noteq> Valid None \<longrightarrow>
        exit_code (run_once at_check e) = Some 1
        \<and> (\<exists>err. printed (run_once at_check e) = [Error err])"
    using run_once_fails [of at_check e] by blast
  have 3: "exit_code (run evs (main True at_check e start)) = None
        \<and> timers (run evs (main True at_check e start)) = 3
        \<and> ((trigger = RefreshTimer \<or> trigger = FileChanged \<or> trigger = Key_r) \<longrightarrow>
            (stats_file e' = Absent \<longrightarrow>
               printed (run (evs @ [(trigger, e')]) (main True at_check e start))
                 = printed (run evs (main True at_check e start)) @ [Error ENOENT])
          \<and> (stats_file e' = Malformed \<longrightarrow>
               printed (run (evs @ [(trigger, e')]) (main True at_check e start))
                 = printed (run evs (main True at_check e start)) @ [Error SyntaxError])
          \<and> (stats_file e' = Valid None \<and> \<not> oauth e' \<longrightarrow>
               printed (run (evs @ [(trigger, e')]) (main True at_check e start))
                 = printed (run evs (main True at_check e start)) @ [Stats])
          \<and> (stats_file e' = Valid None \<and> oauth e'
                \<and> pending (run evs (main True at_check e start)) = [] \<longrightarrow>
               printed (run (evs @ [(trigger, e'), (QuotaSettled, e'')]) (main True at_check e start))
                 = printed (run evs (main True at_check e start)) @ [Stats]))"
    if a: "at_check \<noteq> Absent" and nq: "\<forall>(ev, env) \<in> set evs. ev \<noteq> Key_q \<and> ev \<noteq> Signal"
  proof -
    define q where "q = run evs (main True at_check e start)"
    have ex: "exit_code q = None" and tm: "timers q = 3"
      using run_no_quit [OF nq, of "main True at_check e start"] main_watch [OF a, of e]
      by (simp_all add: q_def)
    have r: "printed (run (evs @ [(trigger, e')]) (main True at_check e start))
               = printed (render True e' q)"
      "printed (run (evs @ [(trigger, e'), (QuotaSettled, e'')]) (main True at_check e start))
               = printed (settle True (render True e' q))"
      if t: "trigger = RefreshTimer \<or> trigger = FileChanged \<or> trigger = Key_r"
      using ex trigger_render [OF t] render_watch(1) [of e' q]
      by (simp_all add: run_append q_def [symmetric] handle_def)
    have p1: "stats_file e' = Absent \<longrightarrow> printed (render True e' q) = printed q @ [Error ENOENT]"
      by (simp add: render_def render_catch_watch)
    have p1': "stats_file e' = Malformed \<longrightarrow>
        printed (render True e' q) = printed q @ [Error SyntaxError]"
      by (simp add: render_def render_catch_watch)
    have p2: "stats_file e' = Valid None \<and> \<not> oauth e' \<longrightarrow>
        printed (render True e' q) = printed q @ [Stats]"
      by (simp add: render_def render_print_def)
    have p3: "stats_file e' = Valid None \<and> oauth e' \<and> pending q = [] \<longrightarrow>
        printed (settle True (render True e' q)) = printed q @ [Stats]"
      by (simp add: render_def settle_def render_print_def)
    from ex tm r p1 p1' p2 p3 show ?thesis unfolding q_def by metis
  qed
  from 1 2 3 show ?thesis by blast
qed

text \<open>
  The theorem on a watch-mode run that starts on a readable file and meets a missing
  and an unreadable file before the file is readable again, and on a one-shot run on
  a file that is not JSON.
\<close>

theorem stats_file_failures_witness:
  "exit_code (run [(RefreshTimer, \<lparr> stats_file = Absent, oauth = False \<rparr>),
                   (Key_g False, \<lparr> stats_file = Malformed, oauth = True \<rparr>)]
       (main True (Valid None) \<lparr> stats_file = Valid None, oauth = False \<rparr> start)) = None
   \<and> timers (run [(RefreshTimer, \<lparr> stats_file = Absent, oauth = False \<rparr>),
                   (Key_g False, \<lparr> stats_file = Malformed, oauth = True \<rparr>)]
       (main True (Valid None) \<lparr> stats_file = Valid None, oauth = False \<rparr> start)) = 3
   \<and> printed (run ([(RefreshTimer, \<lparr> stats_file = Absent, oauth = False \<rparr>),
                   (Key_g False, \<lparr> stats_file = Malformed, oauth = True \<rparr>)]
                  @ [(FileChanged, \<lparr> stats_file = Valid None, oauth = False \<rparr>)])
       (main True (Valid None) \<lparr> stats_file = Valid None, oauth = False \<rparr> start))
     = [HideCursor, Stats, Error ENOENT, Error SyntaxError, NoGoals, Stats]
   \<and> exit_code (run_once Malformed \<lparr> stats_file = Malformed, oauth = False \<rparr>) = Some 1"
proof -
  define e0 where "e0 = \<lparr> stats_file = Valid None, oauth = False \<rparr>"
  define e1 where "e1 = \<lparr> stats_file = Malformed, oauth = False \<rparr>"
  define evs where "evs = [(RefreshTimer, \<lparr> stats_file = Absent, oauth = False \<rparr>),
                   (Key_g False, \<lparr> stats_file = Malformed, oauth = True \<rparr>)]"
  have h1: "Valid None \<noteq> Absent" "Malformed \<noteq> Absent" by simp_all
  have h2: "\<forall>(ev, env) \<in> set evs. ev \<noteq> Key_q \<and> ev \<noteq> Signal" by (simp add: evs_def)
  have h3: "stats_file e0 = Valid None \<and> \<not> oauth e0" by (simp add: e0_def)
  have h4: "stats_file e1 \<noteq> Valid None" by (simp add: e1_def)
  note t = stats_file_failures [of _ _ "Valid None" evs FileChanged e0]
  from t [of True e0] h1(1) h2 h3
  have 1: "exit_code (run evs (main True (Valid None) e0 start)) = None"
    and 2: "timers (run evs (main True (Valid None) e0 start)) = 3"
    and 3: "printed (run (evs @ [(FileChanged, e0)]) (main True (Valid None) e0 start))
        = printed (run evs (main True (Valid None) e0 start)) @ [Stats]"
    by blast+
  have 4: "printed (run evs (main True (Valid None) e0 start))
      = [HideCursor, Stats, Error ENOENT, Error SyntaxError, NoGoals]"
    by (simp add: evs_def e0_def main_def start_def handle_def render_def render_print_def
        render_catch_def)
  from stats_file_failures [of False e1 Malformed] h1(2) h4
  have 5: "exit_code (run_once Malformed e1) = Some 1" by blast
  from 1 2 3 4 5 show ?thesis unfolding e0_def e1_def evs_def by simp
qed

text \<open>
  With an OAuth credential the stats are printed when the quota fetch has settled,
  after whatever the handler printed in the meantime: on the \<^verbatim>\<open>g\<close> key without
  stored goals the message comes first.
\<close>

lemma no_goals_message_before_stats:
  "printed (run [(Key_g False, \<lparr> stats_file = Valid None, oauth = True \<rparr>),
                 (QuotaSettled, \<lparr> stats_file = Valid None, oauth = True \<rparr>)]
      (main True (Valid None) \<lparr> stats_file = Valid None, oauth = False \<rparr> start))
   = [HideCursor, Stats, NoGoals, Stats]"
  by (simp add: main_def start_def handle_def render_def render_print_def settle_def)

end
